theory Spec2Isabelle
  imports Complex_Main "HOL-Library.Word" "HOL-Library.Signed_Division" "HOL-Library.Sublist"
begin

section \<open>Offset pagination of elasticpath/jsonapi (resource.go)\<close>

text \<open>
  The development embeds \<open>OffsetPagination.GeneratePagination\<close> and the helpers it calls
  (\<open>getPageParam\<close>, \<open>replaceParam\<close>, \<open>regexSafe\<close>, \<open>appendToURL\<close>).
  Go strings are byte sequences and are modelled as \<open>string\<close> (a list of bytes);
  \<open>int64\<close> is \<open>64 word\<close>, read as two's complement by \<open>sint\<close>.
\<close>

subsection \<open>Data\<close>

type_synonym int64 = "64 word"

text \<open>\<open>type OffsetPagination struct { URL string; Limit int64; Total int64 }\<close>\<close>

record OffsetPagination =
  URL :: string
  Limit :: int64
  Total :: int64

text \<open>
  Modelled from the spec: the link-name constants \<open>KeyFirstPage\<close>, \<open>KeyPreviousPage\<close>,
  \<open>KeyNextPage\<close> and \<open>KeyLastPage\<close> are used by resource.go but declared in a file that is
  not part of the sources at hand; the spec calls them a fixed enumeration of four names
  (first, previous, next, last), so they are four distinct keys here.
\<close>

datatype LinkKey = KeyFirstPage | KeyPreviousPage | KeyNextPage | KeyLastPage

text \<open>\<open>type Links map[string]interface{}\<close>; GeneratePagination stores URL strings only.\<close>

type_synonym Links = "LinkKey \<rightharpoonup> string"

text \<open>The only run-time panic the calculator can raise: integer division by zero.\<close>

datatype error = DivideByZero

subsection \<open>Library functions of Go used by the calculator\<close>

text \<open>\<open>strings.Contains(s, substr)\<close>\<close>

fun Contains :: "string \<Rightarrow> string \<Rightarrow> bool" where
  "Contains [] sub = (sub = [])"
| "Contains (c # cs) sub = (prefix sub (c # cs) \<or> Contains cs sub)"

definition isDigit :: "char \<Rightarrow> bool" where
  "isDigit c = (c \<in> set ''0123456789'')"

definition digitVal :: "char \<Rightarrow> nat" where
  "digitVal c = of_char c - 48"

definition digitChar :: "nat \<Rightarrow> char" where
  "digitChar n = ''0123456789'' ! n"

text \<open>
  \<open>strconv.Atoi\<close> on a non-empty run of decimal digits, with the error discarded as
  \<open>val, _ = strconv.Atoi(ql)\<close> does: a value beyond the largest \<open>int\<close> (64 bits) is a range
  error, whose returned number is that largest value.
\<close>

definition decimalValue :: "string \<Rightarrow> nat" where
  "decimalValue ds = foldl (\<lambda>n c. 10 * n + digitVal c) 0 ds"

definition Atoi :: "string \<Rightarrow> int64" where
  "Atoi ds = word_of_nat (min (decimalValue ds) (2 ^ 63 - 1))"

text \<open>\<open>strconv.FormatInt(i, 10)\<close>\<close>

fun decimalDigits :: "nat \<Rightarrow> string" where
  "decimalDigits n =
     (if n < 10 then [digitChar n] else decimalDigits (n div 10) @ [digitChar (n mod 10)])"

declare decimalDigits.simps [simp del]

definition FormatInt :: "int64 \<Rightarrow> string" where
  "FormatInt i =
     (if i <s 0 then CHR ''-'' # decimalDigits (nat (- sint i)) else decimalDigits (nat (sint i)))"

text \<open>
  The conversion \<open>float64(x)\<close> of an \<open>int64\<close>: the nearest double, ties to the even
  significand. Every double that arises here is an integer, so a double is represented by
  its exact integer value. Below \<open>2^53\<close> in magnitude the conversion is exact; above, the
  magnitude is rounded to a multiple of \<open>2^e\<close>, where \<open>53 + e\<close> is its number of bits
  (\<open>roundToDouble\<close>), and the sign is kept.
\<close>

definition roundToDouble :: "int \<Rightarrow> int" where
  "roundToDouble a =
     (if a < 2 ^ 53 then a
      else
        let e = Suc (length (filter (\<lambda>i. 2 ^ (54 + i) \<le> a) [0..<10]));
            q = 2 ^ e;
            m = a div q;
            r = a mod q
        in (if 2 * r < q then m else if q < 2 * r then m + 1
            else if even m then m else m + 1) * q)"

definition float64 :: "int64 \<Rightarrow> int" where
  "float64 x = sgn (sint x) * roundToDouble \<bar>sint x\<bar>"

text \<open>
  The conversion \<open>int64(f)\<close> of an integral double. Outside the range of \<open>int64\<close> the Go
  specification leaves the result to the implementation; the only such double that can arise
  is \<open>2^63\<close>, and \<open>c63\<close> stands for what the platform yields for it.
\<close>

definition int64_of_float :: "int64 \<Rightarrow> int \<Rightarrow> int64" where
  "int64_of_float c63 f = (if - (2 ^ 63) \<le> f \<and> f < 2 ^ 63 then word_of_int f else c63)"

text \<open>
  Go's \<open>/\<close> and \<open>%\<close> on \<open>int64\<close> truncate towards zero and wrap on overflow
  (the most negative value divided by \<open>-1\<close>); a zero divisor panics and is checked by the
  caller of these two.
\<close>

definition quo64 :: "int64 \<Rightarrow> int64 \<Rightarrow> int64" where
  "quo64 a b = word_of_int (sint a sdiv sint b)"

definition rem64 :: "int64 \<Rightarrow> int64 \<Rightarrow> int64" where
  "rem64 a b = word_of_int (sint a smod sint b)"

subsection \<open>Regular expressions of the calculator\<close>

text \<open>
  \<open>getPageParam\<close> compiles \<open>page\[NAME\]=(\d+)\<close> and takes the submatch of the leftmost
  match: the first position where the text \<open>page[NAME]=\<close> is followed by a digit, and the
  longest run of digits there (\<open>\d\<close> is an ASCII digit). \<open>FindDigits key s\<close> is that
  submatch for the literal \<open>key\<close>.
\<close>

fun FindDigits :: "string \<Rightarrow> string \<Rightarrow> string option" where
  "FindDigits key [] = None"
| "FindDigits key (c # cs) =
     (let ds = takeWhile isDigit (drop (length key) (c # cs))
      in if prefix key (c # cs) \<and> ds \<noteq> [] then Some ds else FindDigits key cs)"

text \<open>
  \<open>func getPageParam(name, url string) int64\<close>; both callers pass a name of letters
  (\<open>Limit\<close>, \<open>offset\<close>), which the pattern takes literally.
\<close>

definition getPageParam :: "string \<Rightarrow> string \<Rightarrow> int64" where
  "getPageParam name url =
     (case FindDigits (''page['' @ name @ '']='') url of
        None \<Rightarrow> 0
      | Some ql \<Rightarrow> Atoi ql)"

text \<open>
  \<open>func regexSafe(in string) string\<close>: the pattern \<open>([]^\[.()-])+\<close> matches a longest run
  of the characters \<open>] ^ [ . ( ) -\<close>, and the template \<open>\$1\<close> replaces the run by a
  backslash and the last character of the run (the last iteration of the group).
\<close>

definition regexSpecial :: "char \<Rightarrow> bool" where
  "regexSpecial c = (c \<in> set '']^[.()-'')"

fun regexSafe :: "string \<Rightarrow> string" where
  "regexSafe [] = []"
| "regexSafe [c] = (if regexSpecial c then [CHR 0x5C, c] else [c])"
| "regexSafe (c # d # cs) =
     (if regexSpecial c then
        (if regexSpecial d then regexSafe (d # cs) else CHR 0x5C # c # regexSafe (d # cs))
      else c # regexSafe (d # cs))"

text \<open>
  The text matched by a pattern that consists of ordinary characters and of characters
  escaped with a backslash, which is what \<open>regexSafe\<close> returns for \<open>page[limit]\<close> and
  \<open>page[offset]\<close>.
\<close>

fun patternLiteral :: "string \<Rightarrow> string" where
  "patternLiteral [] = []"
| "patternLiteral [c] = [c]"
| "patternLiteral (c # d # cs) =
     (if c = CHR 0x5C then d # patternLiteral cs else c # patternLiteral (d # cs))"

text \<open>
  \<open>regexp.ReplaceAllString\<close> for a pattern \<open>key[^&]+\<close> with a literal \<open>key\<close> and a
  replacement without \<open>$\<close>: scanning from the left, every match (the key, then the longest
  non-empty run of characters other than \<open>&\<close>) is replaced, and the scan goes on after it.
\<close>

definition matchesAt :: "string \<Rightarrow> string \<Rightarrow> bool" where
  "matchesAt key s =
     (prefix key s \<and> (case drop (length key) s of [] \<Rightarrow> False | c # _ \<Rightarrow> c \<noteq> CHR ''&''))"

function ReplaceAllString :: "string \<Rightarrow> string \<Rightarrow> string \<Rightarrow> string" where
  "ReplaceAllString key [] repl = []"
| "ReplaceAllString key (c # cs) repl =
     (if matchesAt key (c # cs)
      then repl @ ReplaceAllString key
                    (dropWhile (\<lambda>x. x \<noteq> CHR ''&'') (drop (length key) (c # cs))) repl
      else c # ReplaceAllString key cs repl)"
  by pat_completeness auto
termination
proof (relation "measure (\<lambda>(key, s, repl). length s)")
  show "wf (measure (\<lambda>(key, s, repl). length s))" by simp
next
  fix key :: string and c :: char and cs :: string and repl :: string
  assume "matchesAt key (c # cs)"
  then obtain d rest where d: "drop (length key) (c # cs) = d # rest" "d \<noteq> CHR ''&''"
    by (auto simp: matchesAt_def split: list.splits)
  have "length (dropWhile (\<lambda>x. x \<noteq> CHR ''&'') rest) \<le> length rest"
    by (rule length_dropWhile_le)
  moreover have "length (d # rest) \<le> length (c # cs)"
    using d(1) [symmetric] by simp
  ultimately show "((key, dropWhile (\<lambda>x. x \<noteq> CHR ''&'') (drop (length key) (c # cs)), repl),
                (key, c # cs, repl)) \<in> measure (\<lambda>(key, s, repl). length s)"
    using d by simp
next
  fix key :: string and c :: char and cs :: string and repl :: string
  show "((key, cs, repl), (key, c # cs, repl)) \<in> measure (\<lambda>(key, s, repl). length s)"
    by simp
qed

declare ReplaceAllString.simps [simp del]

subsection \<open>The calculator\<close>

text \<open>\<open>func replaceParam(url *string, param, value string)\<close>, returning the new \<open>*url\<close>.\<close>

definition replaceParam :: "string \<Rightarrow> string \<Rightarrow> string \<Rightarrow> string" where
  "replaceParam url param val =
     ReplaceAllString (patternLiteral (regexSafe param) @ ''='') url (param @ ''='' @ val)"

text \<open>\<open>func (p *OffsetPagination) appendToURL(param string)\<close>: updates \<open>p.URL\<close> in place.\<close>

definition appendToURL :: "OffsetPagination \<Rightarrow> string \<Rightarrow> OffsetPagination" where
  "appendToURL p param =
     (if \<not> Contains (URL p) ''?'' then p\<lparr>URL := URL p @ ''?'' @ param\<rparr>
      else p\<lparr>URL := URL p @ ''&'' @ param\<rparr>)"

text \<open>Lines 169 to 174: the receiver after the two conditional appends.\<close>

definition initURL :: "OffsetPagination \<Rightarrow> OffsetPagination" where
  "initURL p =
     (let p1 = (if \<not> Contains (URL p) ''page[limit]''
                then appendToURL p (''page[limit]='' @ FormatInt (Limit p)) else p)
      in if \<not> Contains (URL p1) ''page[offset]'' then appendToURL p1 ''page[offset]=0'' else p1)"

text \<open>Lines 177 to 181: the local variables \<open>limit\<close> and \<open>offset\<close>.\<close>

definition effectiveLimit :: "int64 \<Rightarrow> OffsetPagination \<Rightarrow> int64" where
  "effectiveLimit c63 p =
     (let limit = int64_of_float c63
                    (min (float64 (getPageParam ''Limit'' (URL p))) (float64 (Limit p)))
      in if limit = 0 then Limit p else limit)"

definition effectiveOffset :: "int64 \<Rightarrow> OffsetPagination \<Rightarrow> int64" where
  "effectiveOffset c63 p =
     int64_of_float c63 (max (float64 (getPageParam ''offset'' (URL p))) (float64 0))"

text \<open>
  Each link starts from a copy of \<open>p.URL\<close> and has \<open>page[limit]\<close>, then \<open>page[offset]\<close>
  replaced.
\<close>

definition linkURL :: "string \<Rightarrow> int64 \<Rightarrow> int64 \<Rightarrow> string" where
  "linkURL url limit off =
     replaceParam (replaceParam url ''page[limit]'' (FormatInt limit))
       ''page[offset]'' (FormatInt off)"

text \<open>Lines 209 to 218: the offset of the last page; the caller has checked \<open>limit \<noteq> 0\<close>.\<close>

definition lastOffset :: "int64 \<Rightarrow> int64 \<Rightarrow> int64 \<Rightarrow> int64" where
  "lastOffset tot limit off =
     (let pages = quo64 tot limit;
          pages = (if 0 <s rem64 tot limit then pages + 1 else pages);
          lastOffset = (pages - 1) * limit;
          offsetShift = rem64 off limit;
          lastOffset = lastOffset + offsetShift
      in if tot <s lastOffset then lastOffset - limit else lastOffset)"

text \<open>
  \<open>func (p *OffsetPagination) GeneratePagination() *Links\<close>. The result is the panic, or
  the returned pointer (\<open>None\<close> for \<open>nil\<close>) together with the receiver as the call leaves it.
\<close>

definition GeneratePagination ::
  "int64 \<Rightarrow> OffsetPagination \<Rightarrow> error + (Links option \<times> OffsetPagination)" where
  "GeneratePagination c63 p =
     (if Total p <s Limit p then Inr (None, p)
      else
        let p = initURL p;
            links = Map.empty;
            limit = effectiveLimit c63 p;
            offset = effectiveOffset c63 p;
            links = (if 0 <s offset
                     then links(KeyFirstPage \<mapsto> linkURL (URL p) limit 0) else links);
            links = (if limit <s offset
                     then links(KeyPreviousPage \<mapsto> linkURL (URL p) limit (offset - limit))
                     else links);
            links = (if offset + limit <s Total p - limit
                     then links(KeyNextPage \<mapsto> linkURL (URL p) limit (offset + limit))
                     else links)
        in if offset + limit <s Total p
           then (if limit = 0 then Inl DivideByZero
                 else Inr (Some (links(KeyLastPage \<mapsto>
                                   linkURL (URL p) limit (lastOffset (Total p) limit offset))),
                           p))
           else Inr (Some links, p))"

text \<open>
  The offset that \<open>GeneratePagination\<close> writes into the link it stores under a key:
  \<open>0\<close> (line 186), \<open>prevOffset\<close> (line 193), \<open>nextOffset\<close> (line 201) and
  \<open>lastOffset\<close> (lines 209 to 218).
\<close>

definition targetOffset :: "int64 \<Rightarrow> OffsetPagination \<Rightarrow> LinkKey \<Rightarrow> int64" where
  "targetOffset c63 p k =
     (let limit = effectiveLimit c63 (initURL p); offset = effectiveOffset c63 (initURL p)
      in case k of
           KeyFirstPage \<Rightarrow> 0
         | KeyPreviousPage \<Rightarrow> offset - limit
         | KeyNextPage \<Rightarrow> offset + limit
         | KeyLastPage \<Rightarrow> lastOffset (Total p) limit offset)"

subsection \<open>Definitions that follow the specification\<close>

text \<open>
  The working URL in the words of the specification: if the input URL does not contain
  \<open>page[limit]\<close>, the parameter \<open>page[limit]=<limit>\<close> is appended, introduced by \<open>?\<close> if
  the URL has no query string yet and by \<open>&\<close> otherwise; independently, if the input URL
  does not contain \<open>page[offset]\<close>, \<open>page[offset]=0\<close> is appended the same way.
\<close>

definition querySep :: "string \<Rightarrow> string" where
  "querySep u = (if Contains u ''?'' then ''&'' else ''?'')"

definition specWorkingURL :: "string \<Rightarrow> int64 \<Rightarrow> string" where
  "specWorkingURL url limit =
     (let u1 = (if Contains url ''page[limit]'' then url
                else url @ querySep url @ ''page[limit]='' @ FormatInt limit)
      in if Contains url ''page[offset]'' then u1 else u1 @ querySep u1 @ ''page[offset]=0'')"

text \<open>
  The offset of the last page in the words of the specification, computed in \<open>int64\<close>:
  \<open>pages = ceil(total / limit)\<close>, then \<open>(pages - 1) * limit\<close> plus the remainder of the
  offset by the limit, less the limit once if the sum exceeds the total.
\<close>

definition specLastOffset :: "int64 \<Rightarrow> int64 \<Rightarrow> int64 \<Rightarrow> int64" where
  "specLastOffset tot limit off =
     (let pages = word_of_int \<lceil>real_of_int (sint tot) / real_of_int (sint limit)\<rceil>;
          s = (pages - 1) * limit + rem64 off limit
      in if tot <s s then s - limit else s)"

text \<open>
  The effective limit in the words of the specification: the limit extracted from the
  working URL is the first run of digits after \<open>page[limit]=\<close> (0 if there is none);
  the effective limit is the smaller of the extracted and the configured limit, and the
  configured limit if that minimum is 0.
\<close>

definition specEffectiveLimit :: "string \<Rightarrow> int64 \<Rightarrow> int64" where
  "specEffectiveLimit url limit =
     (let extractedLimit = getPageParam ''limit'' url;
          m = (if extractedLimit <s limit then extractedLimit else limit)
      in if m = 0 then limit else m)"

text \<open>
  The parts of a URL between its \<open>&\<close> separators, in order (\<open>strings.Split(s, "&")\<close>):
  the first part holds the path and the first parameter, each later part one parameter.
\<close>

fun splitAmp :: "string \<Rightarrow> string list" where
  "splitAmp [] = [[]]"
| "splitAmp (c # cs) =
     (if c = CHR ''&'' then [] # splitAmp cs
      else (case splitAmp cs of [] \<Rightarrow> [[c]] | x # xs \<Rightarrow> (c # x) # xs))"

text \<open>Whether the pattern \<open>key[^&]+\<close> matches somewhere in a text.\<close>

fun hasMatch :: "string \<Rightarrow> string \<Rightarrow> bool" where
  "hasMatch key [] = False"
| "hasMatch key (c # cs) = (matchesAt key (c # cs) \<or> hasMatch key cs)"

text \<open>
  The value of \<open>c63\<close> on amd64, whose conversion instruction yields the most negative
  integer for a double out of range.
\<close>

definition c63_amd64 :: int64 where
  "c63_amd64 = 0x8000000000000000"

section \<open>Auxiliary facts\<close>

subsection \<open>Substrings and decimal numerals\<close>

lemma Contains_sublist: "Contains s sub \<longleftrightarrow> sublist sub s"
  by (induction s) (auto simp: sublist_Cons_right)

lemma Contains_set: "Contains s sub \<Longrightarrow> set sub \<subseteq> set s"
  unfolding Contains_sublist by (rule set_mono_sublist)

lemma prefix_append_sep:
  assumes "c \<notin> set sub"
  shows "prefix sub (ys @ c # b) \<longleftrightarrow> prefix sub ys"
proof
  assume "prefix sub (ys @ c # b)"
  then consider "prefix sub ys" | us where "sub = ys @ us" "prefix us (c # b)"
    unfolding prefix_append by blast
  then show "prefix sub ys"
  proof cases
    case 1 then show ?thesis .
  next
    case 2
    with assms have "us = []" by (cases us) auto
    with 2 show ?thesis by simp
  qed
next
  assume "prefix sub ys" then show "prefix sub (ys @ c # b)" by (rule prefix_prefix)
qed

lemma Contains_append_sep:
  assumes "c \<notin> set sub"
  shows "Contains (a @ c # b) sub \<longleftrightarrow> Contains a sub \<or> Contains b sub"
proof (induction a)
  case Nil
  have "prefix sub (c # b) \<longleftrightarrow> sub = []"
    using prefix_append_sep [OF assms, of "[]" b] by simp
  then show ?case by simp
next
  case (Cons x a)
  have "prefix sub (x # a @ c # b) \<longleftrightarrow> prefix sub (x # a)"
    using prefix_append_sep [OF assms, of "x # a" b] by simp
  with Cons show ?case by simp
qed

lemma isDigit_digitChar: "n < 10 \<Longrightarrow> isDigit (digitChar n)"
proof -
  assume "n < 10"
  then have "n < length ''0123456789''" by simp
  then have "''0123456789'' ! n \<in> set ''0123456789''" by (rule nth_mem)
  then show ?thesis unfolding digitChar_def isDigit_def .
qed

lemma decimalDigits_isDigit: "c \<in> set (decimalDigits n) \<Longrightarrow> isDigit c"
proof (induction n rule: decimalDigits.induct)
  case (1 n)
  show ?case
  proof (cases "n < 10")
    case True
    with "1.prems" have "c = digitChar n" by (simp add: decimalDigits.simps [of n])
    with True show ?thesis by (simp add: isDigit_digitChar)
  next
    case False
    with "1.prems" have "c \<in> set (decimalDigits (n div 10)) \<or> c = digitChar (n mod 10)"
      by (auto simp: decimalDigits.simps [of n])
    then show ?thesis
    proof
      assume "c \<in> set (decimalDigits (n div 10))"
      with "1.IH" [OF False] show ?thesis .
    next
      assume "c = digitChar (n mod 10)"
      then show ?thesis by (simp add: isDigit_digitChar)
    qed
  qed
qed

lemma FormatInt_chars: "c \<in> set (FormatInt i) \<Longrightarrow> isDigit c \<or> c = CHR ''-''"
  by (auto simp: FormatInt_def dest: decimalDigits_isDigit split: if_splits)

subsection \<open>Numbers: extraction, rounding and the effective limit\<close>

lemma sint_word_of_int:
  "- (2 ^ 63) \<le> k \<Longrightarrow> k < 2 ^ 63 \<Longrightarrow> sint (word_of_int k :: int64) = k"
  by (simp add: signed_of_int signed_take_bit_int_eq_self)

lemma Atoi_nonneg: "0 \<le> sint (Atoi ds)"
proof -
  have "int (min (decimalValue ds) (2 ^ 63 - 1)) < 2 ^ 63" by simp
  then have "sint (word_of_int (int (min (decimalValue ds) (2 ^ 63 - 1))) :: int64)
               = int (min (decimalValue ds) (2 ^ 63 - 1))"
    by (intro sint_word_of_int) simp_all
  then show ?thesis by (simp add: Atoi_def)
qed

lemma getPageParam_nonneg: "0 \<le> sint (getPageParam name url)"
  by (simp add: getPageParam_def Atoi_nonneg split: option.split)

lemma roundToDouble_cases:
  assumes "0 \<le> a"
  obtains "roundToDouble a = a"
  | e m where "0 < e" "e \<le> 11" "m = a div 2 ^ e" "roundToDouble a = m * 2 ^ e"
  | e m where "0 < e" "e \<le> 11" "m = a div 2 ^ e" "0 < a mod 2 ^ e"
      "roundToDouble a = (m + 1) * 2 ^ e"
proof (cases "a < 2 ^ 53")
  case True
  then have "roundToDouble a = a" by (simp add: roundToDouble_def)
  then show ?thesis by (rule that(1))
next
  case False
  define e where "e = Suc (length (filter (\<lambda>i. (2::int) ^ (54 + i) \<le> a) [0..<10]))"
  have "length (filter (\<lambda>i. (2::int) ^ (54 + i) \<le> a) [0..<10]) \<le> length [0..<10]"
    by (rule length_filter_le)
  then have e: "0 < e" "e \<le> 11" by (simp_all add: e_def)
  define m where "m = a div 2 ^ e"
  have q: "(0::int) < 2 ^ e" by simp
  have r: "roundToDouble a =
      (if 2 * (a mod 2 ^ e) < 2 ^ e then m else if 2 ^ e < 2 * (a mod 2 ^ e) then m + 1
       else if even m then m else m + 1) * 2 ^ e"
    using False by (simp add: roundToDouble_def Let_def e_def m_def)
  have pos: "0 < a mod 2 ^ e" if "\<not> 2 * (a mod 2 ^ e) < 2 ^ e"
    using that q by linarith
  consider "roundToDouble a = m * 2 ^ e"
    | "roundToDouble a = (m + 1) * 2 ^ e" "0 < a mod 2 ^ e"
  proof (cases "2 * (a mod 2 ^ e) < 2 ^ e")
    case True
    with r have "roundToDouble a = m * 2 ^ e" by simp
    then show ?thesis by (rule that(1))
  next
    case False
    with r have "roundToDouble a = m * 2 ^ e \<or> roundToDouble a = (m + 1) * 2 ^ e"
      by (simp split: if_splits)
    with pos [OF False] that show ?thesis by blast
  qed
  then show ?thesis
  proof cases
    case 1 with e m_def show ?thesis by (rule that(2))
  next
    case 2 with e m_def show ?thesis using that(3) by blast
  qed
qed

lemma roundToDouble_nonneg:
  assumes "0 \<le> a"
  shows "0 \<le> roundToDouble a"
using assms
proof (cases rule: roundToDouble_cases)
  case 1 with assms show ?thesis by simp
next
  case (2 e m)
  with assms have "0 \<le> m" by (simp add: pos_imp_zdiv_nonneg_iff)
  with 2 show ?thesis by simp
next
  case (3 e m)
  with assms have "0 \<le> m" by (simp add: pos_imp_zdiv_nonneg_iff)
  with 3 show ?thesis by simp
qed

lemma roundToDouble_le:
  assumes "0 \<le> a" "a \<le> 2 ^ 63"
  shows "roundToDouble a \<le> 2 ^ 63"
using assms(1)
proof (cases rule: roundToDouble_cases)
  case 1 with assms show ?thesis by simp
next
  case (2 e m)
  have "a div 2 ^ e * 2 ^ e + a mod 2 ^ e = a" by (rule div_mult_mod_eq)
  moreover have "0 \<le> a mod 2 ^ e" by simp
  ultimately have "a div 2 ^ e * 2 ^ e \<le> a" by linarith
  with 2 assms show ?thesis by simp
next
  case (3 e m)
  define k :: int where "k = 2 ^ (63 - e)"
  have k: "k * 2 ^ e = 2 ^ 63" using 3(2) by (simp add: k_def flip: power_add)
  have "a \<noteq> k * 2 ^ e" using 3(4) by auto
  with assms k have "a < k * 2 ^ e" by simp
  moreover have "a div 2 ^ e * 2 ^ e \<le> a"
  proof -
    have "a div 2 ^ e * 2 ^ e + a mod 2 ^ e = a" by (rule div_mult_mod_eq)
    moreover have "0 \<le> a mod 2 ^ e" by simp
    ultimately show ?thesis by linarith
  qed
  ultimately have "a div 2 ^ e < k"
  proof -
    assume lt: "a < k * 2 ^ e" and le: "a div 2 ^ e * 2 ^ e \<le> a"
    show ?thesis
    proof (rule ccontr)
      assume "\<not> a div 2 ^ e < k"
      then have "k \<le> a div 2 ^ e" by simp
      then have "k * 2 ^ e \<le> a div 2 ^ e * 2 ^ e" by (rule mult_right_mono) simp
      with lt le show False by linarith
    qed
  qed
  then have "m + 1 \<le> k" using 3(3) by simp
  then have "(m + 1) * 2 ^ e \<le> k * 2 ^ e" by (rule mult_right_mono) simp
  with k 3(5) show ?thesis by simp
qed

lemma float64_0: "float64 0 = 0"
  by (simp add: float64_def)

lemma float64_nonneg: "0 \<le> sint x \<Longrightarrow> 0 \<le> float64 x"
  using roundToDouble_nonneg [of "\<bar>sint x\<bar>"] by (simp add: float64_def sgn_if)

lemma float64_nonpos: "sint x \<le> 0 \<Longrightarrow> float64 x \<le> 0"
  using roundToDouble_nonneg [of "\<bar>sint x\<bar>"] by (simp add: float64_def sgn_if)

lemma float64_range: "- (2 ^ 63) \<le> float64 x \<and> float64 x \<le> 2 ^ 63"
proof -
  have "- (2 ^ 63) \<le> sint x" "sint x < 2 ^ 63"
    using sint_ge [of x] sint_lt [of x] by simp_all
  then have a: "0 \<le> \<bar>sint x\<bar>" "\<bar>sint x\<bar> \<le> 2 ^ 63" by simp_all
  define r where "r = roundToDouble \<bar>sint x\<bar>"
  have "0 \<le> r" "r \<le> 2 ^ 63"
    unfolding r_def using roundToDouble_nonneg [OF a(1)] roundToDouble_le [OF a] by simp_all
  moreover have "float64 x = sgn (sint x) * r" by (simp add: float64_def r_def)
  ultimately show ?thesis by (simp add: sgn_if)
qed

lemma effectiveLimit_eq_0_iff: "effectiveLimit c63 p = 0 \<longleftrightarrow> Limit p = 0"
proof
  assume "effectiveLimit c63 p = 0"
  then show "Limit p = 0" by (simp add: effectiveLimit_def Let_def split: if_splits)
next
  assume L: "Limit p = 0"
  have "0 \<le> float64 (getPageParam ''Limit'' (URL p))"
    by (rule float64_nonneg [OF getPageParam_nonneg])
  then have "min (float64 (getPageParam ''Limit'' (URL p))) (float64 (Limit p)) = 0"
    by (simp add: L float64_0)
  then show "effectiveLimit c63 p = 0"
    by (simp add: effectiveLimit_def Let_def L int64_of_float_def)
qed

lemma effectiveLimit_pos_imp: 
  assumes "1 \<le>s effectiveLimit c63 p"
  shows "1 \<le>s Limit p"
proof (cases "int64_of_float c63 (min (float64 (getPageParam ''Limit'' (URL p))) (float64 (Limit p))) = 0")
  case True
  with assms show ?thesis by (simp add: effectiveLimit_def)
next
  case False
  let ?m = "min (float64 (getPageParam ''Limit'' (URL p))) (float64 (Limit p))"
  from False assms have l: "1 \<le>s int64_of_float c63 ?m" by (simp add: effectiveLimit_def)
  have "0 < ?m"
  proof (cases "- (2 ^ 63) \<le> ?m \<and> ?m < 2 ^ 63")
    case True
    with l have "1 \<le> sint (word_of_int ?m :: int64)"
      by (simp add: int64_of_float_def word_sle_eq)
    with True show ?thesis by (simp add: sint_word_of_int)
  next
    case False
    have "- (2 ^ 63) \<le> ?m"
      using float64_range [of "getPageParam ''Limit'' (URL p)"] float64_range [of "Limit p"]
      by (simp add: min_def)
    with False have "2 ^ 63 \<le> ?m" by (simp add: not_less)
    then show ?thesis by simp
  qed
  then have "0 < float64 (Limit p)" by simp
  with float64_nonpos [of "Limit p"] have "0 < sint (Limit p)" by (cases "sint (Limit p) \<le> 0") auto
  then show ?thesis by (simp add: word_sle_eq)
qed

subsection \<open>The working URL and the link set\<close>

lemma initURL_Limit [simp]: "Limit (initURL p) = Limit p"
  by (simp add: initURL_def appendToURL_def Let_def)

lemma initURL_Total [simp]: "Total (initURL p) = Total p"
  by (simp add: initURL_def appendToURL_def Let_def)

lemma not_Contains_limit_param:
  "\<not> Contains (''page[limit]='' @ FormatInt l) ''page[offset]''"
proof
  assume "Contains (''page[limit]='' @ FormatInt l) ''page[offset]''"
  from Contains_set [OF this] have "CHR ''o'' \<in> set (FormatInt l)" by simp
  from FormatInt_chars [OF this] show False by (simp add: isDigit_def)
qed

lemma Contains_offset_after_append:
  "Contains (u @ querySep u @ ''page[limit]='' @ FormatInt l) ''page[offset]''
     \<longleftrightarrow> Contains u ''page[offset]''"
proof -
  obtain c where c: "querySep u = [c]" "c \<notin> set ''page[offset]''"
    by (cases "Contains u ''?''") (simp_all add: querySep_def)
  have "Contains (u @ c # (''page[limit]='' @ FormatInt l)) ''page[offset]''
          \<longleftrightarrow> Contains u ''page[offset]'' \<or> Contains (''page[limit]='' @ FormatInt l) ''page[offset]''"
    by (rule Contains_append_sep [OF c(2)])
  with not_Contains_limit_param [of l] show ?thesis by (simp add: c(1))
qed

lemma initURL_spec: "initURL p = p\<lparr>URL := specWorkingURL (URL p) (Limit p)\<rparr>"
proof (cases "Contains (URL p) ''page[limit]''")
  case True
  then show ?thesis
    by (simp add: initURL_def specWorkingURL_def appendToURL_def querySep_def Let_def)
next
  case False
  have "Contains (URL p @ querySep (URL p) @ ''page[limit]='' @ FormatInt (Limit p)) ''page[offset]''
          \<longleftrightarrow> Contains (URL p) ''page[offset]''"
    by (rule Contains_offset_after_append)
  moreover have "appendToURL q param = q\<lparr>URL := URL q @ querySep (URL q) @ param\<rparr>" for q param
    by (simp add: appendToURL_def querySep_def)
  ultimately show ?thesis using False
    by (simp add: initURL_def specWorkingURL_def Let_def)
qed

lemma GeneratePagination_links:
  fixes c63 p
  defines "w \<equiv> initURL p"
  defines "lm \<equiv> effectiveLimit c63 w"
  defines "off \<equiv> effectiveOffset c63 w"
  assumes pass: "\<not> Total p <s Limit p"
  shows "(GeneratePagination c63 p = Inl DivideByZero \<and> off + lm <s Total p \<and> lm = 0)
       \<or> ((off + lm <s Total p \<longrightarrow> lm \<noteq> 0) \<and>
          (\<exists>links. GeneratePagination c63 p = Inr (Some links, w)
            \<and> links KeyFirstPage = (if 0 <s off then Some (linkURL (URL w) lm 0) else None)
            \<and> links KeyPreviousPage =
                (if lm <s off then Some (linkURL (URL w) lm (off - lm)) else None)
            \<and> links KeyNextPage =
                (if off + lm <s Total p - lm then Some (linkURL (URL w) lm (off + lm))
                 else None)
            \<and> links KeyLastPage =
                (if off + lm <s Total p
                 then Some (linkURL (URL w) lm (lastOffset (Total p) lm off)) else None)))"
  using pass unfolding w_def lm_def off_def
  by (simp add: GeneratePagination_def Let_def)



lemma GeneratePagination_Some_pass:
  "GeneratePagination c63 p = Inr (Some links, p') \<Longrightarrow> \<not> Total p <s Limit p"
  by (auto simp: GeneratePagination_def)

lemma GeneratePagination_Some:
  assumes "GeneratePagination c63 p = Inr (Some links, p')"
  shows "p' = initURL p"
    and "links KeyFirstPage =
           (if 0 <s effectiveOffset c63 (initURL p)
            then Some (linkURL (URL (initURL p)) (effectiveLimit c63 (initURL p)) 0) else None)"
    and "links KeyPreviousPage =
           (if effectiveLimit c63 (initURL p) <s effectiveOffset c63 (initURL p)
            then Some (linkURL (URL (initURL p)) (effectiveLimit c63 (initURL p))
                         (effectiveOffset c63 (initURL p) - effectiveLimit c63 (initURL p)))
            else None)"
    and "links KeyNextPage =
           (if effectiveOffset c63 (initURL p) + effectiveLimit c63 (initURL p)
                <s Total p - effectiveLimit c63 (initURL p)
            then Some (linkURL (URL (initURL p)) (effectiveLimit c63 (initURL p))
                         (effectiveOffset c63 (initURL p) + effectiveLimit c63 (initURL p)))
            else None)"
    and "links KeyLastPage =
           (if effectiveOffset c63 (initURL p) + effectiveLimit c63 (initURL p) <s Total p
            then Some (linkURL (URL (initURL p)) (effectiveLimit c63 (initURL p))
                         (lastOffset (Total p) (effectiveLimit c63 (initURL p))
                            (effectiveOffset c63 (initURL p))))
            else None)"
    and "effectiveOffset c63 (initURL p) + effectiveLimit c63 (initURL p) <s Total p
           \<Longrightarrow> effectiveLimit c63 (initURL p) \<noteq> 0"
  using GeneratePagination_links [OF GeneratePagination_Some_pass [OF assms], of c63] assms
  by auto

subsection \<open>Evaluation of the calculator on the requests of the test suite\<close>

text \<open>
  The calculator is evaluated in steps (the working URL, the two local variables, each
  link), by rewriting with the definitions.
\<close>

lemmas eval_simps = initURL_def appendToURL_def effectiveLimit_def effectiveOffset_def
  linkURL_def lastOffset_def replaceParam_def regexSpecial_def ReplaceAllString.simps
  matchesAt_def getPageParam_def isDigit_def Atoi_def decimalValue_def digitVal_def
  float64_def roundToDouble_def int64_of_float_def FormatInt_def decimalDigits.simps digitChar_def quo64_def
  rem64_def signed_divide_int_def signed_modulo_int_def word_sless_alt Let_def




lemma example_mid_range:
  "GeneratePagination c63 \<lparr>URL = ''/?page[limit]=111&page[offset]=111'', Limit = 100, Total = 334\<rparr>
   = Inr (Some [KeyFirstPage \<mapsto> ''/?page[limit]=100&page[offset]=0'',
                KeyPreviousPage \<mapsto> ''/?page[limit]=100&page[offset]=11'',
                KeyNextPage \<mapsto> ''/?page[limit]=100&page[offset]=211'',
                KeyLastPage \<mapsto> ''/?page[limit]=100&page[offset]=311''],
          \<lparr>URL = ''/?page[limit]=111&page[offset]=111'', Limit = 100, Total = 334\<rparr>)"
proof -
  let ?u = "''/?page[limit]=111&page[offset]=111''"
  let ?p = "\<lparr>URL = ?u, Limit = 100, Total = 334\<rparr>"
  have w: "initURL ?p = ?p" by (simp add: eval_simps)
  have l: "effectiveLimit c63 ?p = 100" by (simp add: eval_simps)
  have off: "effectiveOffset c63 ?p = 111" by (simp add: eval_simps)
  have u1: "linkURL ?u 100 0 = ''/?page[limit]=100&page[offset]=0''" by (simp add: eval_simps)
  have u2: "linkURL ?u 100 11 = ''/?page[limit]=100&page[offset]=11''" by (simp add: eval_simps)
  have u3: "linkURL ?u 100 211 = ''/?page[limit]=100&page[offset]=211''" by (simp add: eval_simps)
  have lo: "lastOffset 334 100 111 = 311" by (simp add: eval_simps)
  have u4: "linkURL ?u 100 311 = ''/?page[limit]=100&page[offset]=311''" by (simp add: eval_simps)
  show ?thesis by (simp add: GeneratePagination_def w l off u1 u2 u3 lo u4 word_sless_alt)
qed



lemma mid_range_init:
  "initURL \<lparr>URL = ''/?page[limit]=111&page[offset]=111'', Limit = 100, Total = 334\<rparr>
   = \<lparr>URL = ''/?page[limit]=111&page[offset]=111'', Limit = 100, Total = 334\<rparr>"
  by (simp add: eval_simps)

lemma mid_range_limit:
  "effectiveLimit c63 \<lparr>URL = ''/?page[limit]=111&page[offset]=111'', Limit = 100, Total = 334\<rparr>
   = 100"
  by (simp add: eval_simps)

lemma mid_range_offset:
  "effectiveOffset c63 \<lparr>URL = ''/?page[limit]=111&page[offset]=111'', Limit = 100, Total = 334\<rparr>
   = 111"
  by (simp add: eval_simps)

subsection \<open>The last page\<close>

lemma pages_ceiling:
  assumes "0 \<le>s tot" "1 \<le>s limit"
  shows "(if 0 <s rem64 tot limit then quo64 tot limit + 1 else quo64 tot limit)
         = word_of_int \<lceil>real_of_int (sint tot) / real_of_int (sint limit)\<rceil>"
proof -
  define t l where "t = sint tot" and "l = sint limit"
  have t: "0 \<le> t" "t < 2 ^ 63" and l: "1 \<le> l"
    using assms sint_lt [of tot] by (simp_all add: t_def l_def word_sle_eq)
  have sd: "t sdiv l = t div l" and sm: "t smod l = t mod l"
    using t l by (simp_all add: signed_divide_int_def signed_modulo_int_def sgn_if)
  have m: "0 \<le> t mod l" "t mod l < l" using l by simp_all
  then have "sint (word_of_int (t mod l) :: int64) = t mod l"
    using t l sint_lt [of limit] by (intro sint_word_of_int) (simp_all add: l_def)
  then have pos: "0 <s rem64 tot limit \<longleftrightarrow> t mod l \<noteq> 0"
    using m by (auto simp: rem64_def word_sless_alt sm simp flip: t_def l_def)
  have "\<lceil>real_of_int t / real_of_int l\<rceil> = - (- t div l)" by (rule ceiling_divide_eq_div)
  also have "\<dots> = (if t mod l = 0 then t div l else t div l + 1)"
    using l by (simp add: zdiv_zminus1_eq_if)
  finally have c: "\<lceil>real_of_int t / real_of_int l\<rceil> = (if t mod l = 0 then t div l else t div l + 1)" .
  show ?thesis
    unfolding pos by (simp add: quo64_def sd c flip: t_def l_def)
qed

lemma lastOffset_spec:
  assumes "0 \<le>s tot" "1 \<le>s limit"
  shows "lastOffset tot limit off = specLastOffset tot limit off"
  unfolding lastOffset_def specLastOffset_def Let_def pages_ceiling [OF assms] ..



subsection \<open>Further requests, evaluated\<close>

lemma example_multiple:
  "GeneratePagination c63 \<lparr>URL = ''/?page[limit]=111&page[offset]=0'', Limit = 100, Total = 300\<rparr>
   = Inr (Some [KeyNextPage \<mapsto> ''/?page[limit]=100&page[offset]=100'',
                KeyLastPage \<mapsto> ''/?page[limit]=100&page[offset]=200''],
          \<lparr>URL = ''/?page[limit]=111&page[offset]=0'', Limit = 100, Total = 300\<rparr>)"
proof -
  let ?u = "''/?page[limit]=111&page[offset]=0''"
  let ?p = "\<lparr>URL = ?u, Limit = 100, Total = 300\<rparr>"
  have w: "initURL ?p = ?p" by (simp add: eval_simps)
  have l: "effectiveLimit c63 ?p = 100" by (simp add: eval_simps)
  have off: "effectiveOffset c63 ?p = 0" by (simp add: eval_simps)
  have u2: "linkURL ?u 100 100 = ''/?page[limit]=100&page[offset]=100''" by (simp add: eval_simps)
  have lo: "lastOffset 300 100 0 = 200" by (simp add: eval_simps)
  have u3: "linkURL ?u 100 200 = ''/?page[limit]=100&page[offset]=200''" by (simp add: eval_simps)
  show ?thesis by (simp add: GeneratePagination_def w l off u2 lo u3 word_sless_alt)
qed

lemma below_limit_init:
  "initURL \<lparr>URL = ''/?page[limit]=111&page[offset]=80'', Limit = 100, Total = 334\<rparr>
   = \<lparr>URL = ''/?page[limit]=111&page[offset]=80'', Limit = 100, Total = 334\<rparr>"
  by (simp add: eval_simps)

lemma below_limit_limit:
  "effectiveLimit c63 \<lparr>URL = ''/?page[limit]=111&page[offset]=80'', Limit = 100, Total = 334\<rparr>
   = 100"
  by (simp add: eval_simps)

lemma below_limit_offset:
  "effectiveOffset c63 \<lparr>URL = ''/?page[limit]=111&page[offset]=80'', Limit = 100, Total = 334\<rparr>
   = 80"
  by (simp add: eval_simps)

lemma example_below_limit:
  "GeneratePagination c63 \<lparr>URL = ''/?page[limit]=111&page[offset]=80'', Limit = 100, Total = 334\<rparr>
   = Inr (Some [KeyFirstPage \<mapsto> ''/?page[limit]=100&page[offset]=0'',
                KeyNextPage \<mapsto> ''/?page[limit]=100&page[offset]=180'',
                KeyLastPage \<mapsto> ''/?page[limit]=100&page[offset]=280''],
          \<lparr>URL = ''/?page[limit]=111&page[offset]=80'', Limit = 100, Total = 334\<rparr>)"
proof -
  let ?u = "''/?page[limit]=111&page[offset]=80''"
  have u1: "linkURL ?u 100 0 = ''/?page[limit]=100&page[offset]=0''" by (simp add: eval_simps)
  have u2: "linkURL ?u 100 180 = ''/?page[limit]=100&page[offset]=180''" by (simp add: eval_simps)
  have lo: "lastOffset 334 100 80 = 280" by (simp add: eval_simps)
  have u4: "linkURL ?u 100 280 = ''/?page[limit]=100&page[offset]=280''" by (simp add: eval_simps)
  show ?thesis
    by (simp add: GeneratePagination_def below_limit_init below_limit_limit below_limit_offset
          u1 u2 lo u4 word_sless_alt)
qed

lemma tail_init:
  "initURL \<lparr>URL = ''/?page[limit]=100&page[offset]=200'', Limit = 100, Total = 334\<rparr>
   = \<lparr>URL = ''/?page[limit]=100&page[offset]=200'', Limit = 100, Total = 334\<rparr>"
  by (simp add: eval_simps)

lemma tail_limit:
  "effectiveLimit c63 \<lparr>URL = ''/?page[limit]=100&page[offset]=200'', Limit = 100, Total = 334\<rparr>
   = 100"
  by (simp add: eval_simps)

lemma tail_offset:
  "effectiveOffset c63 \<lparr>URL = ''/?page[limit]=100&page[offset]=200'', Limit = 100, Total = 334\<rparr>
   = 200"
  by (simp add: eval_simps)

lemma example_tail:
  "GeneratePagination c63 \<lparr>URL = ''/?page[limit]=100&page[offset]=200'', Limit = 100, Total = 334\<rparr>
   = Inr (Some [KeyFirstPage \<mapsto> ''/?page[limit]=100&page[offset]=0'',
                KeyPreviousPage \<mapsto> ''/?page[limit]=100&page[offset]=100'',
                KeyLastPage \<mapsto> ''/?page[limit]=100&page[offset]=300''],
          \<lparr>URL = ''/?page[limit]=100&page[offset]=200'', Limit = 100, Total = 334\<rparr>)"
proof -
  let ?u = "''/?page[limit]=100&page[offset]=200''"
  have u1: "linkURL ?u 100 0 = ''/?page[limit]=100&page[offset]=0''" by (simp add: eval_simps)
  have u2: "linkURL ?u 100 100 = ''/?page[limit]=100&page[offset]=100''" by (simp add: eval_simps)
  have lo: "lastOffset 334 100 200 = 300" by (simp add: eval_simps)
  have u4: "linkURL ?u 100 300 = ''/?page[limit]=100&page[offset]=300''" by (simp add: eval_simps)
  show ?thesis
    by (simp add: GeneratePagination_def tail_init tail_limit tail_offset u1 u2 lo u4 word_sless_alt)
qed

subsection \<open>Panics and defaults\<close>

lemma c63_amd64_negative: "sint c63_amd64 = - (2 ^ 63)"
  by (simp add: c63_amd64_def)

lemma huge_offset_init:
  "initURL \<lparr>URL = ''/?page[offset]=9223372036854775807'', Limit = 0, Total = 0\<rparr>
   = \<lparr>URL = ''/?page[offset]=9223372036854775807&page[limit]=0'', Limit = 0, Total = 0\<rparr>"
  by (simp add: eval_simps)

lemma huge_offset_param:
  "getPageParam ''offset'' ''/?page[offset]=9223372036854775807&page[limit]=0''
   = 9223372036854775807"
  by (simp add: eval_simps)

lemma roundToDouble_max: "roundToDouble 9223372036854775807 = 9223372036854775808"
  by code_simp

lemma float64_max: "float64 9223372036854775807 = 9223372036854775808"
  by (simp add: float64_def roundToDouble_max)

lemma huge_offset_offset:
  "effectiveOffset c63
     \<lparr>URL = ''/?page[offset]=9223372036854775807&page[limit]=0'', Limit = 0, Total = 0\<rparr>
   = c63"
  by (simp add: effectiveOffset_def huge_offset_param float64_max float64_0 int64_of_float_def)

lemma example_huge_offset:
  "GeneratePagination c63_amd64
     \<lparr>URL = ''/?page[offset]=9223372036854775807'', Limit = 0, Total = 0\<rparr>
   = Inl DivideByZero"
proof -
  have l: "effectiveLimit c63_amd64
     \<lparr>URL = ''/?page[offset]=9223372036854775807&page[limit]=0'', Limit = 0, Total = 0\<rparr> = 0"
    by (simp add: effectiveLimit_eq_0_iff)
  show ?thesis
    by (simp add: GeneratePagination_def huge_offset_init huge_offset_offset l word_sless_alt
          c63_amd64_negative)
qed

lemma FindDigits_Some_Contains:
  "FindDigits key s = Some ds \<Longrightarrow> \<exists>d. isDigit d \<and> Contains s (key @ [d])"
proof (induction s)
  case Nil
  then show ?case by simp
next
  case (Cons c cs)
  show ?case
  proof (cases "prefix key (c # cs) \<and> takeWhile isDigit (drop (length key) (c # cs)) \<noteq> []")
    case True
    then obtain rest where r: "c # cs = key @ rest" by (auto simp: prefix_def)
    with True have "takeWhile isDigit rest \<noteq> []" by simp
    then obtain d rest' where d: "rest = d # rest'" "isDigit d"
      by (cases rest) (auto split: if_splits)
    with r have "prefix (key @ [d]) (c # cs)" by (simp add: prefix_def)
    with d(2) show ?thesis by auto
  next
    case False
    with Cons.prems have "FindDigits key cs = Some ds" by (auto simp: Let_def)
    from Cons.IH [OF this] show ?thesis by auto
  qed
qed

lemma getPageParam_default:
  assumes "\<And>d. isDigit d \<Longrightarrow> \<not> Contains url (''page['' @ name @ '']='' @ [d])"
  shows "getPageParam name url = 0"
proof (cases "FindDigits (''page['' @ name @ '']='') url")
  case None
  then show ?thesis by (simp add: getPageParam_def)
next
  case (Some ds)
  from FindDigits_Some_Contains [OF this] assms show ?thesis by auto
qed

lemma effectiveLimit_ge_1:
  assumes "1 \<le>s Limit p"
  shows "1 \<le>s effectiveLimit c63 p \<or> effectiveLimit c63 p = c63"
proof -
  let ?m = "min (float64 (getPageParam ''Limit'' (URL p))) (float64 (Limit p))"
  have m: "0 \<le> ?m"
    using float64_nonneg [OF getPageParam_nonneg, of "''Limit''" "URL p"]
          float64_nonneg [of "Limit p"] assms
    by (simp add: word_sle_eq)
  show ?thesis
  proof (cases "?m < 2 ^ 63")
    case True
    with m have s: "sint (word_of_int ?m :: int64) = ?m" by (intro sint_word_of_int) simp_all
    from True m have i: "int64_of_float c63 ?m = word_of_int ?m" by (simp add: int64_of_float_def)
    show ?thesis
    proof (cases "word_of_int ?m = (0 :: int64)")
      case True
      with i assms show ?thesis by (simp add: effectiveLimit_def)
    next
      case False
      with s have "?m \<noteq> 0" by auto
      with m have "1 \<le> ?m" by linarith
      with s have "1 \<le>s (word_of_int ?m :: int64)" by (simp add: word_sle_eq)
      with i False show ?thesis by (simp add: effectiveLimit_def)
    qed
  next
    case False
    then have "int64_of_float c63 ?m = c63" by (simp add: int64_of_float_def)
    with assms show ?thesis by (auto simp: effectiveLimit_def Let_def)
  qed
qed

lemma GeneratePagination_panic_iff:
  "GeneratePagination c63 p = Inl DivideByZero \<longleftrightarrow>
     Limit p = 0 \<and> \<not> Total p <s 0 \<and> effectiveOffset c63 (initURL p) <s Total p"
proof (cases "Total p <s Limit p")
  case True
  then show ?thesis by (auto simp: GeneratePagination_def)
next
  case False
  from GeneratePagination_links [OF False, of c63] effectiveLimit_eq_0_iff [of c63 "initURL p"] False
  show ?thesis by auto
qed

lemma non_numeric_init:
  "initURL \<lparr>URL = ''/?page[limit]=abc&page[offset]=def'', Limit = 100, Total = 334\<rparr>
   = \<lparr>URL = ''/?page[limit]=abc&page[offset]=def'', Limit = 100, Total = 334\<rparr>"
  by (simp add: eval_simps)

lemma non_numeric_limit:
  "effectiveLimit c63 \<lparr>URL = ''/?page[limit]=abc&page[offset]=def'', Limit = 100, Total = 334\<rparr>
   = 100"
  by (simp add: eval_simps)

lemma non_numeric_offset:
  "effectiveOffset c63 \<lparr>URL = ''/?page[limit]=abc&page[offset]=def'', Limit = 100, Total = 334\<rparr>
   = 0"
  by (simp add: eval_simps)

lemma example_non_numeric:
  "GeneratePagination c63 \<lparr>URL = ''/?page[limit]=abc&page[offset]=def'', Limit = 100, Total = 334\<rparr>
   = Inr (Some [KeyNextPage \<mapsto> ''/?page[limit]=100&page[offset]=100'',
                KeyLastPage \<mapsto> ''/?page[limit]=100&page[offset]=300''],
          \<lparr>URL = ''/?page[limit]=abc&page[offset]=def'', Limit = 100, Total = 334\<rparr>)"
proof -
  let ?u = "''/?page[limit]=abc&page[offset]=def''"
  have u2: "linkURL ?u 100 100 = ''/?page[limit]=100&page[offset]=100''" by (simp add: eval_simps)
  have lo: "lastOffset 334 100 0 = 300" by (simp add: eval_simps)
  have u4: "linkURL ?u 100 300 = ''/?page[limit]=100&page[offset]=300''" by (simp add: eval_simps)
  show ?thesis
    by (simp add: GeneratePagination_def non_numeric_init non_numeric_limit non_numeric_offset
          u2 lo u4 word_sless_alt)
qed

subsection \<open>Replacement, part by part\<close>

lemma splitAmp_nonempty [simp]: "splitAmp s \<noteq> []"
  by (cases s) (simp_all split: list.split)

lemma splitAmp_Cons [simp]:
  "splitAmp (c # cs) =
     (if c = CHR ''&'' then [] # splitAmp cs
      else (c # hd (splitAmp cs)) # tl (splitAmp cs))"
  by (cases "splitAmp cs") simp_all

declare splitAmp.simps(2) [simp del]

lemma hd_splitAmp: "hd (splitAmp s) = takeWhile (\<lambda>x. x \<noteq> CHR ''&'') s"
  by (induction s) simp_all

lemma splitAmp_append_noamp:
  "CHR ''&'' \<notin> set a \<Longrightarrow> splitAmp (a @ s) = (a @ hd (splitAmp s)) # tl (splitAmp s)"
  by (induction a) auto

lemma splitAmp_append_amp: "splitAmp (a @ CHR ''&'' # b) = splitAmp a @ splitAmp b"
proof (induction a)
  case Nil
  show ?case by simp
next
  case (Cons c a)
  then show ?case by (cases "splitAmp a") simp_all
qed

lemma matchesAt_Cons:
  "matchesAt key s \<longleftrightarrow> (\<exists>d rest. s = key @ d # rest \<and> d \<noteq> CHR ''&'')"
proof
  assume "matchesAt key s"
  then obtain rest0 where s: "s = key @ rest0" and r: "rest0 \<noteq> []" "hd rest0 \<noteq> CHR ''&''"
    by (auto simp: matchesAt_def prefix_def split: list.splits)
  then show "\<exists>d rest. s = key @ d # rest \<and> d \<noteq> CHR ''&''" by (cases rest0) auto
next
  assume "\<exists>d rest. s = key @ d # rest \<and> d \<noteq> CHR ''&''"
  then show "matchesAt key s" by (auto simp: matchesAt_def)
qed

lemma matchesAt_takeWhile:
  assumes "CHR ''&'' \<notin> set key"
  shows "matchesAt key (takeWhile (\<lambda>x. x \<noteq> CHR ''&'') s) \<longleftrightarrow> matchesAt key s"
proof
  assume "matchesAt key (takeWhile (\<lambda>x. x \<noteq> CHR ''&'') s)"
  then obtain d rest where t: "takeWhile (\<lambda>x. x \<noteq> CHR ''&'') s = key @ d # rest" "d \<noteq> CHR ''&''"
    unfolding matchesAt_Cons by blast
  have "s = takeWhile (\<lambda>x. x \<noteq> CHR ''&'') s @ dropWhile (\<lambda>x. x \<noteq> CHR ''&'') s" by simp
  with t have "s = key @ d # (rest @ dropWhile (\<lambda>x. x \<noteq> CHR ''&'') s)" by simp
  with t(2) show "matchesAt key s" unfolding matchesAt_Cons by blast
next
  assume "matchesAt key s"
  then obtain d rest where s: "s = key @ d # rest" "d \<noteq> CHR ''&''"
    unfolding matchesAt_Cons by blast
  have "takeWhile (\<lambda>x. x \<noteq> CHR ''&'') (key @ d # rest)
          = key @ takeWhile (\<lambda>x. x \<noteq> CHR ''&'') (d # rest)"
    using assms by (intro takeWhile_append2) auto
  with s have "takeWhile (\<lambda>x. x \<noteq> CHR ''&'') s
                     = key @ d # takeWhile (\<lambda>x. x \<noteq> CHR ''&'') rest"
    by simp
  with s(2) show "matchesAt key (takeWhile (\<lambda>x. x \<noteq> CHR ''&'') s)"
    unfolding matchesAt_Cons by blast
qed

lemma ReplaceAllString_no_key:
  "\<not> Contains s key \<Longrightarrow> ReplaceAllString key s repl = s"
proof (induction s)
  case Nil
  show ?case by (simp add: ReplaceAllString.simps)
next
  case (Cons c cs)
  then have "\<not> matchesAt key (c # cs)" by (auto simp: matchesAt_def)
  with Cons show ?case by (simp add: ReplaceAllString.simps)
qed

lemma ReplaceAllString_match:
  assumes "d \<noteq> CHR ''&''"
  shows "ReplaceAllString key (key @ d # rest) repl
         = repl @ ReplaceAllString key (dropWhile (\<lambda>x. x \<noteq> CHR ''&'') rest) repl"
proof -
  have m: "matchesAt key (key @ d # rest)" using assms unfolding matchesAt_Cons by blast
  obtain c cs where c: "key @ d # rest = c # cs" by (cases "key @ d # rest") auto
  have "ReplaceAllString key (c # cs) repl
          = repl @ ReplaceAllString key
                     (dropWhile (\<lambda>x. x \<noteq> CHR ''&'') (drop (length key) (c # cs))) repl"
    using m unfolding c by (simp add: ReplaceAllString.simps)
  then show ?thesis using assms unfolding c [symmetric] by simp
qed

lemma ReplaceAllString_no_match:
  "\<not> matchesAt key (c # cs) \<Longrightarrow>
     ReplaceAllString key (c # cs) repl = c # ReplaceAllString key cs repl"
  by (simp add: ReplaceAllString.simps)

lemma ReplaceAllString_Nil: "ReplaceAllString key [] repl = []"
  by (simp add: ReplaceAllString.simps)

lemma ReplaceAllString_amp:
  assumes "CHR ''&'' \<notin> set key"
  shows "ReplaceAllString key (CHR ''&'' # cs) repl = CHR ''&'' # ReplaceAllString key cs repl"
proof (rule ReplaceAllString_no_match)
  show "\<not> matchesAt key (CHR ''&'' # cs)"
    using assms unfolding matchesAt_Cons by (cases key) auto
qed

lemma takeWhile_dropWhile_Nil: "takeWhile P (dropWhile P xs) = []"
  by (induction xs) simp_all

lemma dropWhile_takeWhile_Nil: "dropWhile P (takeWhile P xs) = []"
  by (induction xs) auto

lemma hd_splitAmp_dropWhile: "hd (splitAmp (dropWhile (\<lambda>x. x \<noteq> CHR ''&'') s)) = []"
  by (simp add: hd_splitAmp takeWhile_dropWhile_Nil)

lemma splitAmp_ReplaceAllString:
  assumes "CHR ''&'' \<notin> set key" and "CHR ''&'' \<notin> set repl"
  shows "splitAmp (ReplaceAllString key s repl)
         = map (\<lambda>seg. ReplaceAllString key seg repl) (splitAmp s)"
using assms
proof (induction key s repl rule: ReplaceAllString.induct)
  case (1 key repl)
  show ?case by (simp add: ReplaceAllString_Nil)
next
  case (2 key c cs repl)
  let ?P = "\<lambda>x. x \<noteq> CHR ''&''"
  let ?R = "\<lambda>seg. ReplaceAllString key seg repl"
  show ?case
  proof (cases "matchesAt key (c # cs)")
    case True
    then obtain d rest where s: "c # cs = key @ d # rest" and d: "d \<noteq> CHR ''&''"
      unfolding matchesAt_Cons by blast
    define t where "t = dropWhile ?P rest"
    define v where "v = takeWhile ?P rest"
    have rest: "rest = v @ t" by (simp add: v_def t_def)
    have "dropWhile ?P (drop (length key) (c # cs)) = t"
      unfolding s using d by (simp add: t_def)
    with "2.IH"(1) [OF True "2.prems"]
    have IH: "splitAmp (?R t) = map ?R (splitAmp t)" by simp
    have R: "?R (c # cs) = repl @ ?R t"
      unfolding s t_def by (rule ReplaceAllString_match [OF d])
    have hdt: "hd (splitAmp t) = []" unfolding t_def by (rule hd_splitAmp_dropWhile)
    have noamp: "CHR ''&'' \<notin> set (key @ d # v)"
      using "2.prems"(1) d by (auto simp: v_def dest: set_takeWhileD)
    have "splitAmp ((key @ d # v) @ t) = ((key @ d # v) @ hd (splitAmp t)) # tl (splitAmp t)"
      by (rule splitAmp_append_noamp [OF noamp])
    then have split_s: "splitAmp (c # cs) = (key @ d # v) # tl (splitAmp t)"
      unfolding s rest by (simp add: hdt)
    have "?R (key @ d # v) = repl @ ?R (dropWhile ?P v)"
      by (rule ReplaceAllString_match [OF d])
    then have Rseg: "?R (key @ d # v) = repl"
      by (simp add: v_def dropWhile_takeWhile_Nil ReplaceAllString_Nil)
    have "splitAmp (repl @ ?R t) = (repl @ hd (splitAmp (?R t))) # tl (splitAmp (?R t))"
      by (rule splitAmp_append_noamp [OF "2.prems"(2)])
    also have "\<dots> = (repl @ ?R (hd (splitAmp t))) # map ?R (tl (splitAmp t))"
      unfolding IH by (simp add: hd_map map_tl)
    also have "\<dots> = repl # map ?R (tl (splitAmp t))"
      by (simp add: hdt ReplaceAllString_Nil)
    finally show ?thesis unfolding R split_s by (simp add: Rseg)
  next
    case False
    have R: "?R (c # cs) = c # ?R cs" by (rule ReplaceAllString_no_match [OF False])
    from "2.IH"(2) [OF False "2.prems"]
    have IH: "splitAmp (?R cs) = map ?R (splitAmp cs)" .
    show ?thesis
    proof (cases "c = CHR ''&''")
      case True
      then show ?thesis unfolding R by (simp add: IH ReplaceAllString_Nil)
    next
      case c: False
      have "takeWhile ?P (c # cs) = c # hd (splitAmp cs)" using c by (simp add: hd_splitAmp)
      with matchesAt_takeWhile [OF "2.prems"(1), of "c # cs"] False
      have "\<not> matchesAt key (c # hd (splitAmp cs))" by simp
      then have "?R (c # hd (splitAmp cs)) = c # ?R (hd (splitAmp cs))"
        by (rule ReplaceAllString_no_match)
      then show ?thesis unfolding R using c by (simp add: IH hd_map map_tl)
    qed
  qed
qed

lemma replaceParam_limit:
  "replaceParam url ''page[limit]'' v
   = ReplaceAllString ''page[limit]='' url (''page[limit]='' @ v)"
  by (simp add: replaceParam_def regexSpecial_def)

lemma replaceParam_offset:
  "replaceParam url ''page[offset]'' v
   = ReplaceAllString ''page[offset]='' url (''page[offset]='' @ v)"
  by (simp add: replaceParam_def regexSpecial_def)

lemma FormatInt_noamp: "CHR ''&'' \<notin> set (FormatInt i)"
  using FormatInt_chars [of "CHR ''&''" i] by (auto simp: isDigit_def)

lemma splitAmp_linkURL:
  "splitAmp (linkURL url lm off) = map (\<lambda>seg. linkURL seg lm off) (splitAmp url)"
proof -
  have 1: "CHR ''&'' \<notin> set ''page[limit]=''" "CHR ''&'' \<notin> set ''page[offset]=''" by simp_all
  have 2: "CHR ''&'' \<notin> set (''page[limit]='' @ FormatInt lm)"
          "CHR ''&'' \<notin> set (''page[offset]='' @ FormatInt off)"
    using FormatInt_noamp by simp_all
  show ?thesis
    unfolding linkURL_def replaceParam_limit replaceParam_offset
      splitAmp_ReplaceAllString [OF 1(2) 2(2)] splitAmp_ReplaceAllString [OF 1(1) 2(1)]
    by simp
qed


lemma Contains_appendI: "Contains a sub \<Longrightarrow> Contains (a @ b) sub"
proof -
  assume "Contains a sub"
  then obtain ps ss where "a = ps @ sub @ ss" by (auto simp: Contains_sublist sublist_def)
  then have "a @ b = ps @ sub @ (ss @ b)" by simp
  then show ?thesis unfolding Contains_sublist sublist_def by blast
qed


text \<open>For evaluation the defining equations of \<open>splitAmp\<close> are the better rules.\<close>

declare splitAmp_Cons [simp del]

declare splitAmp.simps(2) [simp]





subsection \<open>What a replacement leaves of the text around it\<close>

lemma ReplaceAllString_prefix:
  assumes "key \<noteq> []"
  shows "prefix x (ReplaceAllString key s (key @ v)) \<Longrightarrow> hd key \<notin> set (tl x) \<Longrightarrow>
         prefix x s \<or> (x \<noteq> [] \<and> hd x = hd key \<and> matchesAt key s)"
proof (induction s arbitrary: x)
  case Nil
  then show ?case by (simp add: ReplaceAllString_Nil)
next
  case (Cons c cs)
  show ?case
  proof (cases "matchesAt key (c # cs)")
    case True
    show ?thesis
    proof (cases x)
      case Nil
      then show ?thesis by simp
    next
      case (Cons y ys)
      from True obtain d rest where s: "c # cs = key @ d # rest" "d \<noteq> CHR ''&''"
        unfolding matchesAt_Cons by blast
      from Cons.prems(1) have "prefix x (key @ v @ ReplaceAllString key
                                   (dropWhile (\<lambda>x. x \<noteq> CHR ''&'') rest) (key @ v))"
        unfolding s by (simp add: ReplaceAllString_match [OF s(2)])
      with Cons assms have "y = hd key" by (cases key) auto
      with Cons True show ?thesis by simp
    qed
  next
    case False
    show ?thesis
    proof (cases x)
      case Nil
      then show ?thesis by simp
    next
      case (Cons y ys)
      with Cons.prems(1) False have y: "y = c" and p: "prefix ys (ReplaceAllString key cs (key @ v))"
        by (simp_all add: ReplaceAllString_no_match)
      from Cons.prems(2) Cons have n: "hd key \<notin> set ys" by simp
      then have "hd key \<notin> set (tl ys)" by (cases ys) auto
      from Cons.IH [OF p this] n have "prefix ys cs" by (cases ys) auto
      with y Cons show ?thesis by simp
    qed
  qed
qed

lemma ReplaceAllString_match_head:
  assumes "key \<noteq> []" "hd key \<notin> set (tl key)" "d \<noteq> hd key" "d \<noteq> CHR ''&''"
    and "prefix (key @ [d]) (ReplaceAllString key s (key @ v))"
  shows "matchesAt key s"
proof -
  have "hd key \<notin> set (tl (key @ [d]))" using assms(1-3) by (cases key) auto
  from ReplaceAllString_prefix [OF assms(1) assms(5) this]
  show ?thesis
  proof
    assume "prefix (key @ [d]) s"
    then obtain r where "s = key @ d # r" by (auto simp: prefix_def)
    with assms(4) show ?thesis unfolding matchesAt_Cons by blast
  qed simp
qed

lemma ReplaceAllString_starts_amp:
  assumes "CHR ''&'' \<notin> set key"
  shows "takeWhile isDigit (ReplaceAllString key (dropWhile (\<lambda>x. x \<noteq> CHR ''&'') s) repl) = []"
proof (cases "dropWhile (\<lambda>x. x \<noteq> CHR ''&'') s")
  case Nil
  show ?thesis unfolding Nil by (simp add: ReplaceAllString_Nil)
next
  case (Cons c cs)
  with hd_dropWhile [of "\<lambda>x. x \<noteq> CHR ''&''" s] have "c = CHR ''&''" by auto
  then show ?thesis unfolding Cons by (simp add: ReplaceAllString_amp [OF assms] isDigit_def)
qed

lemma FindDigits_ReplaceAllString:
  assumes key: "key \<noteq> []" "hd key \<notin> set (tl key)" "\<not> isDigit (hd key)" "CHR ''&'' \<notin> set key"
    and ds: "ds \<noteq> []" "\<And>c. c \<in> set ds \<Longrightarrow> isDigit c"
  shows "hasMatch key s \<Longrightarrow> FindDigits key (ReplaceAllString key s (key @ ds)) = Some ds"
proof (induction s)
  case Nil
  then show ?case by simp
next
  case (Cons c cs)
  show ?case
  proof (cases "matchesAt key (c # cs)")
    case True
    then obtain d rest where s: "c # cs = key @ d # rest" "d \<noteq> CHR ''&''"
      unfolding matchesAt_Cons by blast
    let ?t = "ReplaceAllString key (dropWhile (\<lambda>x. x \<noteq> CHR ''&'') rest) (key @ ds)"
    have R: "ReplaceAllString key (c # cs) (key @ ds) = key @ ds @ ?t"
      unfolding s by (simp add: ReplaceAllString_match [OF s(2)])
    obtain k ks where k: "key = k # ks" using key(1) by (cases key) auto
    have tw: "takeWhile isDigit (ds @ ?t) = ds"
      using ds(2) by (simp add: ReplaceAllString_starts_amp [OF key(4)])
    show ?thesis
      unfolding R using ds(1) tw by (simp add: k Let_def)
  next
    case False
    with Cons.prems have "hasMatch key cs" by simp
    from Cons.IH [OF this] have IH: "FindDigits key (ReplaceAllString key cs (key @ ds)) = Some ds" .
    have R: "ReplaceAllString key (c # cs) (key @ ds) = c # ReplaceAllString key cs (key @ ds)"
      by (rule ReplaceAllString_no_match [OF False])
    have "\<not> (prefix key (c # ReplaceAllString key cs (key @ ds))
             \<and> takeWhile isDigit (drop (length key) (c # ReplaceAllString key cs (key @ ds))) \<noteq> [])"
    proof
      assume a: "prefix key (c # ReplaceAllString key cs (key @ ds))
             \<and> takeWhile isDigit (drop (length key) (c # ReplaceAllString key cs (key @ ds))) \<noteq> []"
      then obtain r where r: "c # ReplaceAllString key cs (key @ ds) = key @ r"
        by (auto simp: prefix_def)
      with a have "takeWhile isDigit r \<noteq> []" by simp
      then obtain d r' where d: "r = d # r'" "isDigit d" by (cases r) (auto split: if_splits)
      have "prefix (key @ [d]) (ReplaceAllString key (c # cs) (key @ ds))"
        unfolding R r d by simp
      moreover have "d \<noteq> hd key" "d \<noteq> CHR ''&''" using d(2) key(3) by (auto simp: isDigit_def)
      ultimately have "matchesAt key (c # cs)"
        using ReplaceAllString_match_head [OF key(1,2)] by blast
      with False show False by simp
    qed
    then have "FindDigits key (c # ReplaceAllString key cs (key @ ds))
               = FindDigits key (ReplaceAllString key cs (key @ ds))"
      by (auto simp: Let_def)
    with IH show ?thesis unfolding R by simp
  qed
qed

lemma FindDigits_append_sep:
  assumes "c \<notin> set key" "\<not> isDigit c"
  shows "FindDigits key s = Some ds \<Longrightarrow> FindDigits key (s @ c # z) = Some ds"
proof (induction s)
  case Nil
  then show ?case by simp
next
  case (Cons a s)
  have p: "prefix key ((a # s) @ c # z) \<longleftrightarrow> prefix key (a # s)"
    by (rule prefix_append_sep [OF assms(1)])
  have d: "takeWhile isDigit (drop (length key) ((a # s) @ c # z))
           = takeWhile isDigit (drop (length key) (a # s))" if "prefix key (a # s)"
  proof -
    from that have "length key \<le> length (a # s)" by (rule prefix_length_le)
    moreover have "drop (length key) ((a # s) @ c # z)
                     = drop (length key) (a # s) @ drop (length key - length (a # s)) (c # z)"
      by (rule drop_append)
    ultimately have "drop (length key) ((a # s) @ c # z) = drop (length key) (a # s) @ c # z"
      by simp
    then show ?thesis using assms(2) by (simp add: takeWhile_tail)
  qed
  show ?case
  proof (cases "prefix key (a # s) \<and> takeWhile isDigit (drop (length key) (a # s)) \<noteq> []")
    case True
    with Cons.prems have "takeWhile isDigit (drop (length key) (a # s)) = ds" by (simp add: Let_def)
    with True p d show ?thesis by (simp add: Let_def)
  next
    case False
    with Cons.prems have "FindDigits key s = Some ds" by (auto simp: Let_def)
    from Cons.IH [OF this] have IH: "FindDigits key (s @ c # z) = Some ds" .
    from False p d have "\<not> (prefix key ((a # s) @ c # z)
        \<and> takeWhile isDigit (drop (length key) ((a # s) @ c # z)) \<noteq> [])" by auto
    then have "FindDigits key ((a # s) @ c # z) = FindDigits key (s @ c # z)"
      by (auto simp: Let_def)
    with IH show ?thesis by simp
  qed
qed

lemma Contains_appendI2: "Contains b sub \<Longrightarrow> Contains (a @ b) sub"
proof -
  assume "Contains b sub"
  then obtain ps ss where "b = ps @ sub @ ss" by (auto simp: Contains_sublist sublist_def)
  then have "a @ b = (a @ ps) @ sub @ ss" by simp
  then show ?thesis unfolding Contains_sublist sublist_def by blast
qed

lemma Contains_ReplaceAllString:
  assumes key: "key \<noteq> []" "hd key \<notin> set (tl K)" and v: "v \<noteq> []" "last v \<notin> set K"
    and ch: "ch \<in> set K" "ch \<notin> set (key @ v)"
  shows "Contains (ReplaceAllString key s (key @ v)) K \<Longrightarrow> Contains s K"
proof (induction "length s" arbitrary: s rule: less_induct)
  case less
  show ?case
  proof (cases s)
    case Nil
    with less.prems show ?thesis by (simp add: ReplaceAllString_Nil)
  next
    case (Cons c cs)
    show ?thesis
    proof (cases "matchesAt key (c # cs)")
      case True
      then obtain d rest where s: "c # cs = key @ d # rest" "d \<noteq> CHR ''&''"
        unfolding matchesAt_Cons by blast
      let ?P = "\<lambda>x. x \<noteq> CHR ''&''"
      let ?t = "dropWhile ?P rest"
      have R: "ReplaceAllString key s (key @ v)
               = (key @ butlast v) @ last v # ReplaceAllString key ?t (key @ v)"
        unfolding Cons s using v(1) by (simp add: ReplaceAllString_match [OF s(2)])
      from less.prems have "Contains (key @ butlast v) K
                            \<or> Contains (ReplaceAllString key ?t (key @ v)) K"
        unfolding R by (simp only: Contains_append_sep [OF v(2)])
      moreover have "\<not> Contains (key @ butlast v) K"
      proof
        assume "Contains (key @ butlast v) K"
        from Contains_set [OF this] ch(1) have "ch \<in> set (key @ butlast v)" by blast
        with ch(2) show False by (auto dest: in_set_butlastD)
      qed
      ultimately have c: "Contains (ReplaceAllString key ?t (key @ v)) K" by simp
      have "length ?t \<le> length rest" by (rule length_dropWhile_le)
      then have "length ?t < length s" unfolding Cons s by simp
      from less.hyps [OF this c] have "Contains ?t K" .
      then have "Contains ((key @ d # takeWhile ?P rest) @ ?t) K" by (rule Contains_appendI2)
      then show ?thesis unfolding Cons s by simp
    next
      case False
      have R: "ReplaceAllString key s (key @ v) = c # ReplaceAllString key cs (key @ v)"
        unfolding Cons by (rule ReplaceAllString_no_match [OF False])
      from less.prems consider "prefix K (ReplaceAllString key s (key @ v))"
        | "Contains (ReplaceAllString key cs (key @ v)) K"
        unfolding R by auto
      then show ?thesis
      proof cases
        case 1
        from ReplaceAllString_prefix [OF key(1) 1 key(2)] False
        have "prefix K s" unfolding Cons by auto
        then show ?thesis unfolding Cons by simp
      next
        case 2
        have "length cs < length s" unfolding Cons by simp
        from less.hyps [OF this 2] show ?thesis unfolding Cons by simp
      qed
    qed
  qed
qed

subsection \<open>Reading back what was written\<close>

lemma digitVal_digitChar: "k < 10 \<Longrightarrow> digitVal (digitChar k) = k"
proof -
  assume k: "k < 10"
  have "map (\<lambda>k. digitVal (digitChar k)) [0..<10] = [0..<10]"
    by code_simp
  then have "map (\<lambda>k. digitVal (digitChar k)) [0..<10] ! k = [0..<10] ! k" by simp
  with k show ?thesis by simp
qed

lemma decimalValue_snoc: "decimalValue (ds @ [c]) = 10 * decimalValue ds + digitVal c"
  by (simp add: decimalValue_def)

lemma decimalValue_decimalDigits: "decimalValue (decimalDigits n) = n"
proof (induction n rule: decimalDigits.induct)
  case (1 n)
  show ?case
  proof (cases "n < 10")
    case True
    then show ?thesis
      by (simp add: decimalDigits.simps [of n] decimalValue_def digitVal_digitChar)
  next
    case False
    from "1.IH" [OF False] show ?thesis
      by (simp add: decimalDigits.simps [of n] decimalValue_snoc digitVal_digitChar False)
  qed
qed

lemma decimalDigits_nonempty: "decimalDigits n \<noteq> []"
  by (simp add: decimalDigits.simps [of n])

lemma FormatInt_nonneg:
  assumes "0 \<le>s i"
  shows "FormatInt i = decimalDigits (nat (sint i))"
  using assms by (simp add: FormatInt_def word_sle_eq word_sless_alt)

lemma FormatInt_nonempty: "FormatInt i \<noteq> []"
  by (simp add: FormatInt_def decimalDigits_nonempty)

lemma last_FormatInt: "isDigit (last (FormatInt i))"
proof -
  have "last (decimalDigits n) \<in> set (decimalDigits n)" for n
    by (rule last_in_set [OF decimalDigits_nonempty])
  then have "isDigit (last (decimalDigits n))" for n by (rule decimalDigits_isDigit)
  then show ?thesis by (simp add: FormatInt_def decimalDigits_nonempty)
qed

lemma Atoi_FormatInt:
  assumes "0 \<le>s i"
  shows "Atoi (FormatInt i) = i"
proof -
  have "sint i < 2 ^ 63" using sint_lt [of i] by simp
  with assms have "nat (sint i) \<le> 2 ^ 63 - 1" by (simp add: word_sle_eq nat_le_iff)
  then have "min (nat (sint i)) (2 ^ 63 - 1) = nat (sint i)" by simp
  moreover have "word_of_nat (nat (sint i)) = (word_of_int (sint i) :: int64)"
    using assms by (simp add: word_sle_eq)
  moreover have "(word_of_int (sint i) :: int64) = i" by simp
  ultimately show ?thesis
    by (simp add: Atoi_def FormatInt_nonneg [OF assms] decimalValue_decimalDigits)
qed

lemma float64_small: "\<bar>sint x\<bar> < 2 ^ 53 \<Longrightarrow> float64 x = sint x"
  by (simp add: float64_def roundToDouble_def sgn_if)

lemma effectiveOffset_extracted:
  assumes "getPageParam ''offset'' (URL q) = off" "0 \<le>s off" "sint off < 2 ^ 53"
  shows "effectiveOffset c63 q = off"
proof -
  from assms(2,3) have "\<bar>sint off\<bar> < 2 ^ 53" by (simp add: word_sle_eq)
  then have f: "float64 off = sint off" by (rule float64_small)
  from assms(2,3) have "max (sint off) 0 = sint off" "- (2 ^ 63) \<le> sint off" "sint off < 2 ^ 63"
    by (simp_all add: word_sle_eq)
  then show ?thesis
    by (simp add: effectiveOffset_def assms(1) f float64_0 int64_of_float_def)
qed

lemma effectiveLimit_no_param:
  assumes "getPageParam ''Limit'' (URL q) = 0" "getPageParam ''Limit'' (URL p) = 0"
    "Limit q = Limit p"
  shows "effectiveLimit c63 q = effectiveLimit c63 p"
  by (simp add: effectiveLimit_def assms Let_def)

lemma getPageParam_absent:
  "\<not> Contains url (''page['' @ name @ '']='') \<Longrightarrow> getPageParam name url = 0"
proof (rule getPageParam_default)
  fix d
  assume n: "\<not> Contains url (''page['' @ name @ '']='')"
  show "\<not> Contains url (''page['' @ name @ '']='' @ [d])"
  proof
    assume "Contains url (''page['' @ name @ '']='' @ [d])"
    then obtain ps ss where "url = ps @ (''page['' @ name @ '']='' @ [d]) @ ss"
      by (auto simp: Contains_sublist sublist_def)
    then have "url = ps @ (''page['' @ name @ '']='') @ (d # ss)" by simp
    then have "Contains url (''page['' @ name @ '']='')"
      unfolding Contains_sublist sublist_def by blast
    with n show False by simp
  qed
qed

subsection \<open>The parameters of a link\<close>

lemma splitAmp_part:
  "seg \<in> set (splitAmp s) \<Longrightarrow> (\<exists>pre post. s = pre @ seg @ post) \<and> CHR ''&'' \<notin> set seg"
proof (induction s arbitrary: seg)
  case Nil
  then show ?case by simp
next
  case (Cons c cs)
  let ?P = "\<lambda>x. x \<noteq> CHR ''&''"
  show ?case
  proof (cases "c = CHR ''&''")
    case True
    with Cons.prems have "seg = [] \<or> seg \<in> set (splitAmp cs)"
      unfolding splitAmp_Cons by simp
    then show ?thesis
    proof
      assume e: "seg = []"
      have "c # cs = [] @ [] @ (c # cs)" by simp
      then have "\<exists>pre post. c # cs = pre @ [] @ post" by blast
      then show ?thesis unfolding e by simp
    next
      assume "seg \<in> set (splitAmp cs)"
      from Cons.IH [OF this] obtain pre post where "cs = pre @ seg @ post" "CHR ''&'' \<notin> set seg"
        by blast
      then have "c # cs = (c # pre) @ seg @ post" by simp
      with \<open>CHR ''&'' \<notin> set seg\<close> show ?thesis by blast
    qed
  next
    case False
    with Cons.prems have "seg = c # hd (splitAmp cs) \<or> seg \<in> set (tl (splitAmp cs))"
      unfolding splitAmp_Cons by simp
    then show ?thesis
    proof
      assume s: "seg = c # hd (splitAmp cs)"
      have "c # cs = [] @ (c # takeWhile ?P cs) @ dropWhile ?P cs" by simp
      moreover have "CHR ''&'' \<notin> set (c # takeWhile ?P cs)"
        using False by (auto dest: set_takeWhileD)
      ultimately show ?thesis unfolding s hd_splitAmp by blast
    next
      assume "seg \<in> set (tl (splitAmp cs))"
      then have "seg \<in> set (splitAmp cs)" by (rule list.set_sel(2) [OF splitAmp_nonempty])
      from Cons.IH [OF this] obtain pre post where "cs = pre @ seg @ post" "CHR ''&'' \<notin> set seg"
        by blast
      then have "c # cs = (c # pre) @ seg @ post" by simp
      with \<open>CHR ''&'' \<notin> set seg\<close> show ?thesis by blast
    qed
  qed
qed

lemma hasMatch_append: "matchesAt key t \<Longrightarrow> hasMatch key (a @ t)"
proof (induction a)
  case Nil
  then obtain d r where "t = key @ d # r" unfolding matchesAt_Cons by blast
  then have "t \<noteq> []" by simp
  then obtain c cs where "t = c # cs" by (cases t) simp_all
  with Nil show ?case by simp
next
  case (Cons x a)
  then show ?case by simp
qed

lemma hasMatch_part:
  assumes "seg \<in> set (splitAmp s)" "Contains seg (key @ [d])"
  shows "hasMatch key s"
proof -
  from splitAmp_part [OF assms(1)] obtain pre post
    where s: "s = pre @ seg @ post" and n: "CHR ''&'' \<notin> set seg" by blast
  from assms(2) obtain a b where seg: "seg = a @ (key @ [d]) @ b"
    by (auto simp: Contains_sublist sublist_def)
  with n have "d \<noteq> CHR ''&''" by auto
  then have "matchesAt key (key @ d # (b @ post))" unfolding matchesAt_Cons by blast
  then have "hasMatch key ((pre @ a) @ key @ d # (b @ post))" by (rule hasMatch_append)
  then show ?thesis unfolding s seg by simp
qed

lemma linkURL_offset_digits:
  assumes "seg \<in> set (splitAmp w)" "Contains seg (''page[offset]='' @ [d])"
    "\<not> Contains seg ''page[limit]=''" "0 \<le>s off"
  shows "FindDigits ''page[offset]='' (linkURL w lm off) = Some (FormatInt off)"
proof -
  let ?w1 = "ReplaceAllString ''page[limit]='' w (''page[limit]='' @ FormatInt lm)"
  let ?R = "\<lambda>seg. ReplaceAllString ''page[limit]='' seg (''page[limit]='' @ FormatInt lm)"
  have sp: "splitAmp ?w1 = map ?R (splitAmp w)"
    using FormatInt_noamp [of lm] by (intro splitAmp_ReplaceAllString) simp_all
  have Rseg: "?R seg = seg" by (rule ReplaceAllString_no_key [OF assms(3)])
  from assms(1) have "?R seg \<in> set (map ?R (splitAmp w))" by (simp only: set_map image_eqI)
  then have "seg \<in> set (splitAmp ?w1)" unfolding sp Rseg .
  then have h: "hasMatch ''page[offset]='' ?w1" using assms(2) by (rule hasMatch_part)
  have ds: "FormatInt off \<noteq> []" "\<And>c. c \<in> set (FormatInt off) \<Longrightarrow> isDigit c"
    using assms(4)
    by (simp_all add: FormatInt_nonempty FormatInt_nonneg decimalDigits_isDigit
          decimalDigits_nonempty)
  have "FindDigits ''page[offset]=''
          (ReplaceAllString ''page[offset]='' ?w1 (''page[offset]='' @ FormatInt off))
        = Some (FormatInt off)"
  proof (rule FindDigits_ReplaceAllString [OF _ _ _ _ ds h])
    show "''page[offset]='' \<noteq> []" by simp
    show "hd ''page[offset]='' \<notin> set (tl ''page[offset]='')" by simp
    show "\<not> isDigit (hd ''page[offset]='')" by (simp add: isDigit_def)
    show "CHR ''&'' \<notin> set ''page[offset]=''" by simp
  qed
  then show ?thesis by (simp add: linkURL_def replaceParam_limit replaceParam_offset)
qed

lemma Contains_Limit_ReplaceAllString:
  assumes "key = ''page[limit]='' \<or> key = ''page[offset]=''"
    and "Contains (ReplaceAllString key s (key @ FormatInt i)) ''page[Limit]=''"
  shows "Contains s ''page[Limit]=''"
proof -
  have d: "isDigit (last (FormatInt i))" by (rule last_FormatInt)
  have l: "last (FormatInt i) \<notin> set ''page[Limit]=''"
  proof
    assume "last (FormatInt i) \<in> set ''page[Limit]=''"
    then have "\<not> isDigit (last (FormatInt i))" by (auto simp: isDigit_def)
    with d show False by simp
  qed
  have L: "CHR ''L'' \<notin> set (FormatInt i)"
    using FormatInt_chars [of "CHR ''L''" i] by (auto simp: isDigit_def)
  have ch1: "CHR ''L'' \<in> set ''page[Limit]=''" by simp
  from assms(1) show ?thesis
  proof
    assume k: "key = ''page[limit]=''"
    have k1: "key \<noteq> []" "hd key \<notin> set (tl ''page[Limit]='')" unfolding k by simp_all
    have ch2: "CHR ''L'' \<notin> set (key @ FormatInt i)" unfolding k using L by simp
    show ?thesis
      by (rule Contains_ReplaceAllString [OF k1 FormatInt_nonempty l ch1 ch2 assms(2)])
  next
    assume k: "key = ''page[offset]=''"
    have k1: "key \<noteq> []" "hd key \<notin> set (tl ''page[Limit]='')" unfolding k by simp_all
    have ch2: "CHR ''L'' \<notin> set (key @ FormatInt i)" unfolding k using L by simp
    show ?thesis
      by (rule Contains_ReplaceAllString [OF k1 FormatInt_nonempty l ch1 ch2 assms(2)])
  qed
qed

lemma linkURL_no_Limit:
  assumes "\<not> Contains w ''page[Limit]=''"
  shows "\<not> Contains (linkURL w lm off) ''page[Limit]=''"
proof
  let ?w1 = "ReplaceAllString ''page[limit]='' w (''page[limit]='' @ FormatInt lm)"
  assume "Contains (linkURL w lm off) ''page[Limit]=''"
  then have c: "Contains (ReplaceAllString ''page[offset]='' ?w1 (''page[offset]='' @ FormatInt off))
               ''page[Limit]=''"
    unfolding linkURL_def replaceParam_limit replaceParam_offset .
  have "Contains ?w1 ''page[Limit]=''"
    by (rule Contains_Limit_ReplaceAllString [OF _ c]) simp
  then have "Contains w ''page[Limit]=''"
    by (rule Contains_Limit_ReplaceAllString [rotated]) simp
  with assms show False by simp
qed

subsection \<open>A limit in the URL below the configured one\<close>

lemma example_small_limit:
  "GeneratePagination c63 \<lparr>URL = ''/?page[limit]=50&page[offset]=150'', Limit = 100, Total = 334\<rparr>
   = Inr (Some [KeyFirstPage \<mapsto> ''/?page[limit]=100&page[offset]=0'',
                KeyPreviousPage \<mapsto> ''/?page[limit]=100&page[offset]=50'',
                KeyLastPage \<mapsto> ''/?page[limit]=100&page[offset]=250''],
          \<lparr>URL = ''/?page[limit]=50&page[offset]=150'', Limit = 100, Total = 334\<rparr>)"
proof -
  let ?u = "''/?page[limit]=50&page[offset]=150''"
  let ?p = "\<lparr>URL = ?u, Limit = 100, Total = 334\<rparr>"
  have w: "initURL ?p = ?p" by (simp add: eval_simps)
  have l: "effectiveLimit c63 ?p = 100" by (simp add: eval_simps)
  have off: "effectiveOffset c63 ?p = 150" by (simp add: eval_simps)
  have u1: "linkURL ?u 100 0 = ''/?page[limit]=100&page[offset]=0''" by (simp add: eval_simps)
  have u2: "linkURL ?u 100 50 = ''/?page[limit]=100&page[offset]=50''" by (simp add: eval_simps)
  have lo: "lastOffset 334 100 150 = 250" by (simp add: eval_simps)
  have u4: "linkURL ?u 100 250 = ''/?page[limit]=100&page[offset]=250''" by (simp add: eval_simps)
  show ?thesis by (simp add: GeneratePagination_def w l off u1 u2 lo u4 word_sless_alt)
qed

lemma small_limit_offset:
  "effectiveOffset c63 \<lparr>URL = ''/?page[limit]=50&page[offset]=150'', Limit = 100, Total = 334\<rparr>
   = 150"
  by (simp add: eval_simps)

lemma small_limit_spec:
  "specEffectiveLimit ''/?page[limit]=50&page[offset]=150'' 100 = 50"
  by (simp add: specEffectiveLimit_def eval_simps)

lemma small_limit_specLast: "specLastOffset 334 50 150 = 300"
proof -
  have "specLastOffset 334 50 150 = lastOffset 334 50 150"
    by (rule lastOffset_spec [symmetric]) (simp_all add: word_sle_eq)
  also have "\<dots> = 300" by (simp add: eval_simps)
  finally show ?thesis .
qed

subsection \<open>Running the calculator on one of its links\<close>

lemma link_targetOffset:
  assumes "GeneratePagination c63 p = Inr (Some links, p')" and "links k = Some u"
  shows "u = linkURL (URL (initURL p)) (effectiveLimit c63 (initURL p)) (targetOffset c63 p k)"
  using GeneratePagination_Some(2-5) [OF assms(1)] assms(2)
  by (cases k) (auto simp: targetOffset_def split: if_splits)

lemma Contains_sub_prefix: "Contains s (a @ b) \<Longrightarrow> Contains s a"
proof -
  assume "Contains s (a @ b)"
  then obtain ps ss where "s = ps @ (a @ b) @ ss" by (auto simp: Contains_sublist sublist_def)
  then have "s = ps @ a @ (b @ ss)" by simp
  then show ?thesis unfolding Contains_sublist sublist_def by blast
qed

lemma not_Contains_Limit_param: "\<not> Contains (''page[limit]='' @ FormatInt l) ''page[Limit]=''"
proof
  assume "Contains (''page[limit]='' @ FormatInt l) ''page[Limit]=''"
  from Contains_set [OF this] have "CHR ''L'' \<in> set (FormatInt l)" by simp
  from FormatInt_chars [OF this] show False by (simp add: isDigit_def)
qed

lemma specWorkingURL_no_Limit:
  assumes "\<not> Contains url ''page[Limit]=''"
  shows "\<not> Contains (specWorkingURL url l) ''page[Limit]=''"
proof -
  have sep: "\<not> Contains (x @ querySep x @ y) ''page[Limit]=''"
    if "\<not> Contains x ''page[Limit]=''" "\<not> Contains y ''page[Limit]=''" for x y
  proof -
    obtain c where c: "querySep x = [c]" "c \<notin> set ''page[Limit]=''"
      by (cases "Contains x ''?''") (simp_all add: querySep_def)
    from Contains_append_sep [OF c(2), of x y] that show ?thesis by (simp add: c(1))
  qed
  have o: "\<not> Contains ''page[offset]=0'' ''page[Limit]=''" by simp
  let ?u1 = "if Contains url ''page[limit]'' then url
             else url @ querySep url @ ''page[limit]='' @ FormatInt l"
  have u1: "\<not> Contains ?u1 ''page[Limit]=''"
    using sep [OF assms not_Contains_Limit_param [of l]] assms by simp
  show ?thesis
    unfolding specWorkingURL_def Let_def using u1 sep [OF u1 o] by simp
qed

lemma rerun_values:
  assumes w: "\<not> Contains w ''page[Limit]=''" "seg \<in> set (splitAmp w)"
      "Contains seg (''page[offset]='' @ [d])" "\<not> Contains seg ''page[limit]=''"
    and t: "0 \<le>s t" "sint t < 2 ^ 53"
  shows "effectiveOffset c63 (initURL \<lparr>URL = linkURL w lm t, Limit = L, Total = T\<rparr>) = t"
    and "getPageParam ''Limit'' (URL (initURL \<lparr>URL = linkURL w lm t, Limit = L, Total = T\<rparr>)) = 0"
proof -
  let ?u = "linkURL w lm t"
  let ?q = "\<lparr>URL = ?u, Limit = L, Total = T\<rparr>"
  have f: "FindDigits ''page[offset]='' ?u = Some (FormatInt t)"
    by (rule linkURL_offset_digits [OF w(2,3,4) t(1)])
  have n: "\<not> Contains ?u ''page[Limit]=''" by (rule linkURL_no_Limit [OF w(1)])
  from FindDigits_Some_Contains [OF f] obtain e where "Contains ?u (''page[offset]='' @ [e])"
    by blast
  then have "Contains ?u (''page[offset]'' @ ''='' @ [e])" by simp
  then have co: "Contains ?u ''page[offset]''" by (rule Contains_sub_prefix)
  define u1 where "u1 = URL (initURL ?q)"
  have u1: "u1 = (if Contains ?u ''page[limit]'' then ?u
                  else ?u @ querySep ?u @ ''page[limit]='' @ FormatInt L)"
    by (simp add: u1_def initURL_spec specWorkingURL_def Let_def co)
  obtain c where c: "querySep ?u = [c]" "c \<notin> set ''page[offset]=''" "\<not> isDigit c"
    by (cases "Contains ?u ''?''") (simp_all add: querySep_def isDigit_def)
  have f1: "FindDigits ''page[offset]='' u1 = Some (FormatInt t)"
    unfolding u1 using f FindDigits_append_sep [OF c(2,3) f, of "''page[limit]='' @ FormatInt L"]
    by (simp add: c(1))
  have "\<not> Contains (specWorkingURL ?u L) ''page[Limit]=''"
    by (rule specWorkingURL_no_Limit [OF n])
  then have n1: "\<not> Contains u1 ''page[Limit]=''" by (simp add: u1_def initURL_spec)
  have "getPageParam ''offset'' u1 = t"
    by (simp add: getPageParam_def f1 Atoi_FormatInt [OF t(1)])
  then show "effectiveOffset c63 (initURL ?q) = t"
    unfolding u1_def by (rule effectiveOffset_extracted [OF _ t])
  from n1 show "getPageParam ''Limit'' (URL (initURL ?q)) = 0"
    unfolding u1_def by (intro getPageParam_absent) simp
qed

lemma Contains_prefixI: "prefix a s \<Longrightarrow> Contains a sub \<Longrightarrow> Contains s sub"
  by (auto simp: prefix_def intro: Contains_appendI)

lemma Contains_strip_last:
  assumes "Contains (s @ [x]) (k @ [d])" "x \<noteq> d"
  shows "Contains s (k @ [d])"
proof -
  from assms(1) obtain ps ss where e: "s @ [x] = ps @ (k @ [d]) @ ss"
    by (auto simp: Contains_sublist sublist_def)
  show ?thesis
  proof (cases ss rule: rev_cases)
    case Nil
    with e have "s @ [x] = (ps @ k) @ [d]" by simp
    then have "x = d" by (simp only: append1_eq_conv)
    with assms(2) show ?thesis by simp
  next
    case (snoc ss' y)
    with e have "s @ [x] = (ps @ (k @ [d]) @ ss') @ [y]" by simp
    then have "s = ps @ (k @ [d]) @ ss'" by (simp only: append1_eq_conv)
    then show ?thesis unfolding Contains_sublist sublist_def by blast
  qed
qed

lemma Contains_strip_tail:
  "d \<notin> set t \<Longrightarrow> Contains (s @ t) (k @ [d]) \<Longrightarrow> Contains s (k @ [d])"
proof (induction t rule: rev_induct)
  case Nil
  then show ?case by simp
next
  case (snoc x t)
  from snoc.prems(2) have "Contains ((s @ t) @ [x]) (k @ [d])" by simp
  moreover from snoc.prems(1) have "x \<noteq> d" by auto
  ultimately have "Contains (s @ t) (k @ [d])" by (rule Contains_strip_last)
  with snoc.IH snoc.prems(1) show ?case by simp
qed

lemma append_sep_position:
  assumes "xs @ c # ys = a @ z" "c \<notin> set z"
  shows "prefix xs a"
proof -
  from assms(1) consider us where "xs = a @ us" "us @ c # ys = z"
    | us where "xs @ us = a" "c # ys = us @ z"
    unfolding append_eq_append_conv2 by blast
  then show ?thesis
  proof cases
    case 1
    then have "c \<in> set z" by auto
    with assms(2) show ?thesis by simp
  next
    case 2
    then show ?thesis by auto
  qed
qed

lemma ReplaceAllString_part:
  assumes "CHR ''&'' \<notin> set s"
  shows "(ReplaceAllString key s repl = s \<and> (\<forall>d. \<not> Contains s (key @ [d])))
       \<or> (\<exists>a c r. s = a @ key @ c # r \<and> ReplaceAllString key s repl = a @ repl
             \<and> (\<forall>d. \<not> Contains a (key @ [d])))"
  using assms
proof (induction s)
  case Nil
  then show ?case by (simp add: ReplaceAllString_Nil)
next
  case (Cons x xs)
  show ?case
  proof (cases "matchesAt key (x # xs)")
    case True
    then obtain d rest where s: "x # xs = key @ d # rest" "d \<noteq> CHR ''&''"
      unfolding matchesAt_Cons by blast
    from Cons.prems have "CHR ''&'' \<notin> set rest" unfolding s by simp
    then have dw: "dropWhile (\<lambda>x. x \<noteq> CHR ''&'') rest = []" by auto
    have "ReplaceAllString key (x # xs) repl = [] @ repl"
      unfolding s by (simp add: ReplaceAllString_match [OF s(2)] dw ReplaceAllString_Nil)
    moreover have "x # xs = [] @ key @ d # rest" using s(1) by simp
    moreover have "\<forall>e. \<not> Contains [] (key @ [e])" by simp
    ultimately show ?thesis by blast
  next
    case False
    have R: "ReplaceAllString key (x # xs) repl = x # ReplaceAllString key xs repl"
      by (rule ReplaceAllString_no_match [OF False])
    have np: "\<not> prefix (key @ [d]) (x # ys)" if "prefix ys xs" for d ys
    proof
      assume "prefix (key @ [d]) (x # ys)"
      with that have "prefix (key @ [d]) (x # xs)" by (meson Cons_prefix_Cons prefix_order.trans)
      then obtain r where r: "x # xs = key @ d # r" by (auto simp: prefix_def)
      with Cons.prems have "d \<noteq> CHR ''&''" by (metis in_set_conv_decomp)
      with r have "matchesAt key (x # xs)" unfolding matchesAt_Cons by blast
      with False show False by simp
    qed
    from Cons.prems have "CHR ''&'' \<notin> set xs" by simp
    from Cons.IH [OF this] show ?thesis
    proof
      assume a: "ReplaceAllString key xs repl = xs \<and> (\<forall>d. \<not> Contains xs (key @ [d]))"
      then have "\<forall>d. \<not> Contains (x # xs) (key @ [d])" using np [of xs] by simp
      with a R show ?thesis by simp
    next
      assume "\<exists>a c r. xs = a @ key @ c # r \<and> ReplaceAllString key xs repl = a @ repl
             \<and> (\<forall>d. \<not> Contains a (key @ [d]))"
      then obtain a c r where a: "xs = a @ key @ c # r" "ReplaceAllString key xs repl = a @ repl"
        "\<forall>d. \<not> Contains a (key @ [d])" by blast
      from a(1) have "prefix a xs" by simp
      from np [OF this] a(3) have "\<forall>d. \<not> Contains (x # a) (key @ [d])" by simp
      moreover have "x # xs = (x # a) @ key @ c # r" using a(1) by simp
      moreover have "ReplaceAllString key (x # xs) repl = (x # a) @ repl" using R a(2) by simp
      ultimately show ?thesis by blast
    qed
  qed
qed

lemma FindDigits_nonempty: "FindDigits key s = Some ds \<Longrightarrow> ds \<noteq> []"
  by (induction s) (auto simp: Let_def split: if_splits)

lemma FindDigits_append_cases:
  assumes "c \<notin> set key" "\<not> isDigit c"
  shows "FindDigits key (a @ c # b) = Some ds \<Longrightarrow>
         FindDigits key a = Some ds \<or> FindDigits key b = Some ds"
proof (induction a)
  case Nil
  have "\<not> (prefix key (c # b) \<and> takeWhile isDigit (drop (length key) (c # b)) \<noteq> [])"
    using assms by (cases key) auto
  with Nil show ?case by (auto simp: Let_def)
next
  case (Cons x a)
  have p: "prefix key ((x # a) @ c # b) \<longleftrightarrow> prefix key (x # a)"
    by (rule prefix_append_sep [OF assms(1)])
  have d: "takeWhile isDigit (drop (length key) ((x # a) @ c # b))
           = takeWhile isDigit (drop (length key) (x # a))" if "prefix key (x # a)"
  proof -
    from that have "length key \<le> length (x # a)" by (rule prefix_length_le)
    moreover have "drop (length key) ((x # a) @ c # b)
                     = drop (length key) (x # a) @ drop (length key - length (x # a)) (c # b)"
      by (rule drop_append)
    ultimately have "drop (length key) ((x # a) @ c # b) = drop (length key) (x # a) @ c # b"
      by simp
    then show ?thesis using assms(2) by (simp add: takeWhile_tail)
  qed
  show ?case
  proof (cases "prefix key (x # a) \<and> takeWhile isDigit (drop (length key) (x # a)) \<noteq> []")
    case True
    with Cons.prems p d show ?thesis by (simp add: Let_def)
  next
    case False
    with p d have "\<not> (prefix key ((x # a) @ c # b)
        \<and> takeWhile isDigit (drop (length key) ((x # a) @ c # b)) \<noteq> [])" by auto
    with Cons.prems have "FindDigits key (a @ c # b) = Some ds" by (auto simp: Let_def)
    from Cons.IH [OF this] False show ?thesis by (auto simp: Let_def)
  qed
qed

lemma splitAmp_noamp: "CHR ''&'' \<notin> set a \<Longrightarrow> splitAmp a = [a]"
  using splitAmp_append_noamp [of a "[]"] by simp

lemma FindDigits_part:
  assumes "CHR ''&'' \<notin> set key"
  shows "FindDigits key s = Some ds \<Longrightarrow> \<exists>seg \<in> set (splitAmp s). FindDigits key seg = Some ds"
proof (induction "length s" arbitrary: s rule: less_induct)
  case less
  let ?P = "\<lambda>x. x \<noteq> CHR ''&''"
  show ?case
  proof (cases "CHR ''&'' \<in> set s")
    case False
    then show ?thesis using less.prems by (simp add: splitAmp_noamp)
  next
    case True
    then obtain a b where s: "s = a @ CHR ''&'' # b" "CHR ''&'' \<notin> set a"
      by (metis split_list_first)
    have sp: "splitAmp s = a # splitAmp b"
      unfolding s(1) splitAmp_append_amp by (simp add: splitAmp_noamp [OF s(2)])
    have "\<not> isDigit (CHR ''&'')" by (simp add: isDigit_def)
    from FindDigits_append_cases [OF assms this less.prems [unfolded s(1)]]
    show ?thesis
    proof
      assume "FindDigits key a = Some ds"
      then show ?thesis unfolding sp by simp
    next
      assume b: "FindDigits key b = Some ds"
      have "length b < length s" unfolding s(1) by simp
      from less.hyps [OF this b] show ?thesis unfolding sp by simp
    qed
  qed
qed

lemma Contains_limit_digit_before_offset:
  assumes "isDigit d" "Contains (b @ ''page[offset]='' @ FormatInt t) (''page[limit]='' @ [d])"
  shows "Contains b (''page[limit]='' @ [d])"
proof -
  let ?K = "''page[limit]='' @ [d]"
  from assms(1) have o: "CHR ''o'' \<notin> set ?K" and t: "d \<notin> set ''page[''"
    by (auto simp: isDigit_def)
  have "b @ ''page[offset]='' @ FormatInt t
        = (b @ ''page['') @ CHR ''o'' # (''ffset]='' @ FormatInt t)" by simp
  with assms(2) have "Contains ((b @ ''page['') @ CHR ''o'' # (''ffset]='' @ FormatInt t)) ?K"
    by simp
  then have "Contains (b @ ''page['') ?K \<or> Contains (''ffset]='' @ FormatInt t) ?K"
    by (simp only: Contains_append_sep [OF o])
  moreover have "\<not> Contains (''ffset]='' @ FormatInt t) ?K"
  proof
    assume "Contains (''ffset]='' @ FormatInt t) ?K"
    from Contains_set [OF this] have "CHR ''p'' \<in> set (FormatInt t)" by simp
    from FormatInt_chars [OF this] show False by (simp add: isDigit_def)
  qed
  ultimately have "Contains (b @ ''page['') ?K" by simp
  with t show ?thesis by (rule Contains_strip_tail)
qed

lemma linkURL_part_limit_digits:
  assumes amp: "CHR ''&'' \<notin> set seg"
    and f: "FindDigits ''page[limit]='' (linkURL seg lm t) = Some ds"
  shows "0 \<le>s lm \<and> ds = FormatInt lm"
proof -
  let ?x = "ReplaceAllString ''page[limit]='' seg (''page[limit]='' @ FormatInt lm)"
  let ?y = "ReplaceAllString ''page[offset]='' ?x (''page[offset]='' @ FormatInt t)"
  have y: "linkURL seg lm t = ?y"
    by (simp add: linkURL_def replaceParam_limit replaceParam_offset)
  from FindDigits_Some_Contains [OF f] obtain d
    where d: "isDigit d" "Contains ?y (''page[limit]='' @ [d])" unfolding y by blast
  let ?K = "''page[limit]='' @ [d]"
  from ReplaceAllString_part [OF amp, of "''page[limit]=''" "''page[limit]='' @ FormatInt lm"]
  consider (same) "?x = seg" "\<forall>e. \<not> Contains seg (''page[limit]='' @ [e])"
    | (repl) a c r where "seg = a @ ''page[limit]='' @ c # r"
        "?x = a @ ''page[limit]='' @ FormatInt lm"
        "\<forall>e. \<not> Contains a (''page[limit]='' @ [e])"
    by blast
  then show ?thesis
  proof cases
    case same
    have xa: "CHR ''&'' \<notin> set ?x" unfolding same(1) by (rule amp)
    from ReplaceAllString_part [OF xa, of "''page[offset]=''" "''page[offset]='' @ FormatInt t"]
    consider "?y = ?x"
      | b c r where "?x = b @ ''page[offset]='' @ c # r" "?y = b @ ''page[offset]='' @ FormatInt t"
      by blast
    then have "Contains seg ?K"
    proof cases
      case 1
      with d(2) same(1) show ?thesis by simp
    next
      case 2
      from d(2) have "Contains (b @ ''page[offset]='' @ FormatInt t) ?K" unfolding 2(2) .
      then have "Contains b ?K" by (rule Contains_limit_digit_before_offset [OF d(1)])
      moreover from 2(1) have "seg = b @ (''page[offset]='' @ c # r)" unfolding same(1) by simp
      then have "prefix b seg" by (rule prefixI)
      ultimately show ?thesis by (rule Contains_prefixI [rotated])
    qed
    with same(2) show ?thesis by blast
  next
    case repl
    have xa: "CHR ''&'' \<notin> set ?x"
      unfolding repl(2) using amp FormatInt_noamp [of lm] unfolding repl(1) by simp
    from ReplaceAllString_part [OF xa, of "''page[offset]=''" "''page[offset]='' @ FormatInt t"]
    consider (keep) "?y = ?x"
      | (wipe) b c r where "?x = b @ ''page[offset]='' @ c # r"
          "?y = b @ ''page[offset]='' @ FormatInt t"
      by blast
    then show ?thesis
    proof cases
      case keep
      show ?thesis
      proof (cases "0 \<le>s lm")
        case True
        have "c \<noteq> CHR ''&''" using amp unfolding repl(1) by auto
        then have "matchesAt ''page[limit]='' (''page[limit]='' @ c # r)"
          unfolding matchesAt_Cons by blast
        then have h: "hasMatch ''page[limit]='' seg" unfolding repl(1) by (rule hasMatch_append)
        have dsF: "FormatInt lm \<noteq> []" "\<And>c. c \<in> set (FormatInt lm) \<Longrightarrow> isDigit c"
          using True
          by (simp_all add: FormatInt_nonempty FormatInt_nonneg decimalDigits_isDigit
                decimalDigits_nonempty)
        have "FindDigits ''page[limit]='' ?x = Some (FormatInt lm)"
        proof (rule FindDigits_ReplaceAllString [OF _ _ _ _ dsF h])
          show "''page[limit]='' \<noteq> []" by simp
          show "hd ''page[limit]='' \<notin> set (tl ''page[limit]='')" by simp
          show "\<not> isDigit (hd ''page[limit]='')" by (simp add: isDigit_def)
          show "CHR ''&'' \<notin> set ''page[limit]=''" by simp
        qed
        with f True show ?thesis unfolding y keep by simp
      next
        case False
        then obtain ds' where F: "FormatInt lm = CHR ''-'' # ds'" "\<And>c. c \<in> set ds' \<Longrightarrow> isDigit c"
          by (auto simp: FormatInt_def word_sle_eq word_sless_alt dest: decimalDigits_isDigit)
        from d(1) have m: "CHR ''-'' \<notin> set ?K" and t: "d \<notin> set ''page[limit]=''"
          by (auto simp: isDigit_def)
        from d(2) have "Contains ?x ?K" unfolding keep .
        then have "Contains (a @ ''page[limit]='' @ FormatInt lm) ?K" unfolding repl(2) .
        then have "Contains ((a @ ''page[limit]='') @ CHR ''-'' # ds') ?K"
          unfolding F(1) by simp
        then have "Contains (a @ ''page[limit]='') ?K \<or> Contains ds' ?K"
          by (simp only: Contains_append_sep [OF m])
        moreover have "\<not> Contains ds' ?K"
        proof
          assume "Contains ds' ?K"
          from Contains_set [OF this] have "CHR ''p'' \<in> set ds'" by simp
          from F(2) [OF this] show False by (simp add: isDigit_def)
        qed
        ultimately have "Contains (a @ ''page[limit]='') ?K" by simp
        with t have "Contains a ?K" by (rule Contains_strip_tail)
        with repl(3) show ?thesis by blast
      qed
    next
      case wipe
      from d(2) have "Contains (b @ ''page[offset]='' @ FormatInt t) ?K" unfolding wipe(2) .
      then have cb: "Contains b ?K" by (rule Contains_limit_digit_before_offset [OF d(1)])
      have "CHR ''o'' \<notin> set (''page[limit]='' @ FormatInt lm)"
        using FormatInt_chars [of "CHR ''o''" lm] by (auto simp: isDigit_def)
      moreover have "(b @ ''page['') @ CHR ''o'' # (''ffset]='' @ c # r)
                     = a @ (''page[limit]='' @ FormatInt lm)"
        using wipe(1) repl(2) by simp
      ultimately have "prefix (b @ ''page['') a" by (rule append_sep_position [rotated])
      then have "prefix b a" by (rule append_prefixD)
      from Contains_prefixI [OF this cb] repl(3) show ?thesis by blast
    qed
  qed
qed

lemma linkURL_limit_digits:
  assumes "FindDigits ''page[limit]='' (linkURL w lm t) = Some ds"
  shows "0 \<le>s lm \<and> ds = FormatInt lm"
proof -
  have k: "CHR ''&'' \<notin> set ''page[limit]=''" by simp
  from FindDigits_part [OF k assms] obtain y
    where y: "y \<in> set (splitAmp (linkURL w lm t))" "FindDigits ''page[limit]='' y = Some ds"
    by blast
  from y(1) obtain seg where seg: "seg \<in> set (splitAmp w)" "y = linkURL seg lm t"
    unfolding splitAmp_linkURL by auto
  from splitAmp_part [OF seg(1)] have "CHR ''&'' \<notin> set seg" by blast
  from this y(2) [unfolded seg(2)] show ?thesis by (rule linkURL_part_limit_digits)
qed

lemma FindDigits_own_limit:
  assumes "FindDigits ''page[limit]='' (''page[limit]='' @ FormatInt l) = Some ds"
  shows "0 \<le>s l \<and> ds = FormatInt l"
proof (cases "0 \<le>s l")
  case True
  have tw: "takeWhile isDigit (FormatInt l) = FormatInt l"
    using True by (simp add: takeWhile_eq_all_conv FormatInt_nonneg decimalDigits_isDigit)
  have "FindDigits ''page[limit]='' (''page[limit]='' @ FormatInt l) = Some (FormatInt l)"
    by (simp add: Let_def tw FormatInt_nonempty)
  with assms True show ?thesis by simp
next
  case False
  then obtain ds' where F: "FormatInt l = CHR ''-'' # ds'" "\<And>c. c \<in> set ds' \<Longrightarrow> isDigit c"
    by (auto simp: FormatInt_def word_sle_eq word_sless_alt dest: decimalDigits_isDigit)
  from FindDigits_Some_Contains [OF assms] obtain d
    where d: "isDigit d" "Contains (''page[limit]='' @ FormatInt l) (''page[limit]='' @ [d])"
    by blast
  let ?K = "''page[limit]='' @ [d]"
  from d(1) have m: "CHR ''-'' \<notin> set ?K" and t: "d \<notin> set ''page[limit]=''"
    by (auto simp: isDigit_def)
  from d(2) have "Contains (''page[limit]='' @ CHR ''-'' # ds') ?K" unfolding F(1) .
  then have "Contains ''page[limit]='' ?K \<or> Contains ds' ?K"
    by (simp only: Contains_append_sep [OF m])
  then show ?thesis
  proof
    assume "Contains ''page[limit]='' ?K"
    from Contains_set [OF this] t show ?thesis by simp
  next
    assume "Contains ds' ?K"
    from Contains_set [OF this] have "CHR ''p'' \<in> set ds'" by simp
    from F(2) [OF this] show ?thesis by (simp add: isDigit_def)
  qed
qed

lemma specWorkingURL_limit_digits:
  assumes "FindDigits ''page[limit]='' (specWorkingURL (linkURL w l t) l) = Some ds"
  shows "0 \<le>s l \<and> ds = FormatInt l"
proof -
  let ?u = "linkURL w l t"
  let ?u1 = "if Contains ?u ''page[limit]'' then ?u
             else ?u @ querySep ?u @ ''page[limit]='' @ FormatInt l"
  have sep: "FindDigits ''page[limit]='' x = Some ds \<or> FindDigits ''page[limit]='' y = Some ds"
    if "FindDigits ''page[limit]='' (x @ querySep x @ y) = Some ds" for x y
  proof -
    obtain c where c: "querySep x = [c]" "c \<notin> set ''page[limit]=''" "\<not> isDigit c"
      by (cases "Contains x ''?''") (simp_all add: querySep_def isDigit_def)
    from that have "FindDigits ''page[limit]='' (x @ c # y) = Some ds" by (simp add: c(1))
    then show ?thesis by (rule FindDigits_append_cases [OF c(2,3)])
  qed
  have u1: "0 \<le>s l \<and> ds = FormatInt l" if "FindDigits ''page[limit]='' ?u1 = Some ds"
  proof (cases "Contains ?u ''page[limit]''")
    case True
    with that show ?thesis by (simp add: linkURL_limit_digits)
  next
    case False
    with that have "FindDigits ''page[limit]='' (?u @ querySep ?u @ ''page[limit]='' @ FormatInt l)
                    = Some ds" by simp
    from sep [OF this] show ?thesis
    proof
      assume "FindDigits ''page[limit]='' ?u = Some ds"
      then show ?thesis by (rule linkURL_limit_digits)
    next
      assume "FindDigits ''page[limit]='' (''page[limit]='' @ FormatInt l) = Some ds"
      then show ?thesis by (rule FindDigits_own_limit)
    qed
  qed
  have none: "FindDigits ''page[limit]='' ''page[offset]=0'' = None" by (simp add: Let_def)
  show ?thesis
  proof (cases "Contains ?u ''page[offset]''")
    case True
    with assms have "FindDigits ''page[limit]='' ?u1 = Some ds"
      by (simp add: specWorkingURL_def Let_def)
    then show ?thesis by (rule u1)
  next
    case False
    with assms have "FindDigits ''page[limit]='' (?u1 @ querySep ?u1 @ ''page[offset]=0'') = Some ds"
      by (simp add: specWorkingURL_def Let_def)
    from sep [OF this] none have "FindDigits ''page[limit]='' ?u1 = Some ds" by simp
    then show ?thesis by (rule u1)
  qed
qed

lemma getPageParam_limit_rerun:
  "getPageParam ''limit'' (specWorkingURL (linkURL w l t) l) = 0
   \<or> getPageParam ''limit'' (specWorkingURL (linkURL w l t) l) = l"
proof (cases "FindDigits ''page[limit]='' (specWorkingURL (linkURL w l t) l)")
  case None
  then show ?thesis by (simp add: getPageParam_def)
next
  case (Some ds)
  from specWorkingURL_limit_digits [OF Some] have "0 \<le>s l" "ds = FormatInt l" by simp_all
  with Some show ?thesis by (simp add: getPageParam_def Atoi_FormatInt)
qed

lemma specEffectiveLimit_default:
  "getPageParam ''limit'' url = 0 \<or> getPageParam ''limit'' url = l
   \<Longrightarrow> specEffectiveLimit url l = l"
  by (auto simp: specEffectiveLimit_def Let_def)

lemma specEffectiveLimit_negative:
  assumes "l <s 0"
  shows "specEffectiveLimit url l = l"
proof -
  from assms getPageParam_nonneg [of "''limit''" url]
  have "\<not> getPageParam ''limit'' url <s l" "l \<noteq> 0"
    by (auto simp: word_sless_alt)
  then show ?thesis by (simp add: specEffectiveLimit_def Let_def)
qed

lemma effectiveLimit_agree:
  assumes "getPageParam ''Limit'' (URL q) = 0"
    and "specEffectiveLimit (URL q) (Limit q) = effectiveLimit c63 q"
  shows "effectiveLimit c63 q = Limit q"
proof (cases "Limit q <s 0")
  case True
  from specEffectiveLimit_negative [OF this] assms(2) show ?thesis by simp
next
  case False
  then have "0 \<le> float64 (Limit q)" by (intro float64_nonneg) (simp add: word_sless_alt)
  then have "min (float64 0) (float64 (Limit q)) = 0" by (simp add: float64_0)
  then show ?thesis by (simp add: effectiveLimit_def assms(1) int64_of_float_def)
qed

lemma no_offset_param_init:
  "initURL \<lparr>URL = ''/?q=page[offset]'', Limit = 100, Total = 334\<rparr>
   = \<lparr>URL = ''/?q=page[offset]&page[limit]=100'', Limit = 100, Total = 334\<rparr>"
  by (simp add: eval_simps)

lemma no_offset_param_init_link:
  "initURL \<lparr>URL = ''/?q=page[offset]&page[limit]=100'', Limit = 100, Total = 334\<rparr>
   = \<lparr>URL = ''/?q=page[offset]&page[limit]=100'', Limit = 100, Total = 334\<rparr>"
  by (simp add: eval_simps)

lemma no_offset_param_limit:
  "effectiveLimit c63 \<lparr>URL = ''/?q=page[offset]&page[limit]=100'', Limit = 100, Total = 334\<rparr>
   = 100"
  by (simp add: eval_simps)

lemma no_offset_param_offset:
  "effectiveOffset c63 \<lparr>URL = ''/?q=page[offset]&page[limit]=100'', Limit = 100, Total = 334\<rparr>
   = 0"
  by (simp add: eval_simps)

lemma no_offset_param_link:
  "linkURL ''/?q=page[offset]&page[limit]=100'' 100 100 = ''/?q=page[offset]&page[limit]=100''"
  "linkURL ''/?q=page[offset]&page[limit]=100'' 100 300 = ''/?q=page[offset]&page[limit]=100''"
  by (simp_all add: eval_simps)

lemma example_no_offset_param:
  "GeneratePagination c63 \<lparr>URL = ''/?q=page[offset]'', Limit = 100, Total = 334\<rparr>
   = Inr (Some [KeyNextPage \<mapsto> ''/?q=page[offset]&page[limit]=100'',
                KeyLastPage \<mapsto> ''/?q=page[offset]&page[limit]=100''],
          \<lparr>URL = ''/?q=page[offset]&page[limit]=100'', Limit = 100, Total = 334\<rparr>)"
proof -
  have lo: "lastOffset 334 100 0 = 300" by (simp add: eval_simps)
  show ?thesis
    by (simp add: GeneratePagination_def no_offset_param_init no_offset_param_limit no_offset_param_offset
          no_offset_param_link lo word_sless_alt)
qed

lemma example_no_offset_param_link:
  "GeneratePagination c63 \<lparr>URL = ''/?q=page[offset]&page[limit]=100'', Limit = 100, Total = 334\<rparr>
   = Inr (Some [KeyNextPage \<mapsto> ''/?q=page[offset]&page[limit]=100'',
                KeyLastPage \<mapsto> ''/?q=page[offset]&page[limit]=100''],
          \<lparr>URL = ''/?q=page[offset]&page[limit]=100'', Limit = 100, Total = 334\<rparr>)"
proof -
  have lo: "lastOffset 334 100 0 = 300" by (simp add: eval_simps)
  show ?thesis
    by (simp add: GeneratePagination_def no_offset_param_init_link no_offset_param_limit
          no_offset_param_offset no_offset_param_link lo word_sless_alt)
qed

lemma no_offset_param_target:
  "targetOffset c63 \<lparr>URL = ''/?q=page[offset]'', Limit = 100, Total = 334\<rparr> KeyNextPage = 100"
  by (simp add: targetOffset_def no_offset_param_init no_offset_param_limit no_offset_param_offset)

lemma mid_range_spec_limit:
  "specEffectiveLimit ''/?page[limit]=111&page[offset]=111'' 100 = 100"
  by (simp add: specEffectiveLimit_def eval_simps)

lemma mid_range_target:
  "targetOffset c63 \<lparr>URL = ''/?page[limit]=111&page[offset]=111'', Limit = 100, Total = 334\<rparr>
     KeyNextPage = 211"
  by (simp add: targetOffset_def mid_range_init mid_range_limit mid_range_offset)

section \<open>Properties\<close>

text \<open>
  C7. A request whose total is below its limit gets no link set at all (the nil pointer,
  not an empty map), whatever the URL holds, and the receiver is left as it was.
\<close>

theorem no_pagination_below_limit:
  "Total p <s Limit p \<longrightarrow> GeneratePagination c63 p = Inr (None, p)"
  by (simp add: GeneratePagination_def)

theorem no_pagination_below_limit_witness:
  "Total \<lparr>URL = ''/?page[limit]=10&page[offset]=20&q=1'', Limit = 100, Total = 99\<rparr>
     <s Limit \<lparr>URL = ''/?page[limit]=10&page[offset]=20&q=1'', Limit = 100, Total = 99\<rparr>
   \<and> GeneratePagination 0 \<lparr>URL = ''/?page[limit]=10&page[offset]=20&q=1'', Limit = 100, Total = 99\<rparr>
       = Inr (None, \<lparr>URL = ''/?page[limit]=10&page[offset]=20&q=1'', Limit = 100, Total = 99\<rparr>)"
  using no_pagination_below_limit
    [of "\<lparr>URL = ''/?page[limit]=10&page[offset]=20&q=1'', Limit = 100, Total = 99\<rparr>" 0]
  by simp

text \<open>
  C1. The limit written into the links is meant to be the smaller of the limit found in the
  URL and the configured one. The code asks \<open>getPageParam\<close> for \<open>Limit\<close> with a capital L,
  so the parameter \<open>page[limit]\<close> of the URL is never read: for the URL
  \<open>/?page[limit]=50&page[offset]=100\<close> with limit 100 and total 334 every link carries
  \<open>page[limit]=100\<close>, not \<open>page[limit]=50\<close>.
\<close>

theorem url_limit_not_read:
  "GeneratePagination c63 \<lparr>URL = ''/?page[limit]=50&page[offset]=100'', Limit = 100, Total = 334\<rparr>
   = Inr (Some [KeyFirstPage \<mapsto> ''/?page[limit]=100&page[offset]=0'',
                KeyNextPage \<mapsto> ''/?page[limit]=100&page[offset]=200'',
                KeyLastPage \<mapsto> ''/?page[limit]=100&page[offset]=300''],
          \<lparr>URL = ''/?page[limit]=50&page[offset]=100'', Limit = 100, Total = 334\<rparr>)"
proof -
  let ?u = "''/?page[limit]=50&page[offset]=100''"
  let ?p = "\<lparr>URL = ?u, Limit = 100, Total = 334\<rparr>"
  have w: "initURL ?p = ?p" by (simp add: eval_simps)
  have l: "effectiveLimit c63 ?p = 100" by (simp add: eval_simps)
  have off: "effectiveOffset c63 ?p = 100" by (simp add: eval_simps)
  have u1: "linkURL ?u 100 0 = ''/?page[limit]=100&page[offset]=0''" by (simp add: eval_simps)
  have u2: "linkURL ?u 100 200 = ''/?page[limit]=100&page[offset]=200''" by (simp add: eval_simps)
  have lo: "lastOffset 334 100 100 = 300" by (simp add: eval_simps)
  have u3: "linkURL ?u 100 300 = ''/?page[limit]=100&page[offset]=300''" by (simp add: eval_simps)
  show ?thesis by (simp add: GeneratePagination_def w l off u1 u2 lo u3 word_sless_alt)
qed










text \<open>
  C4. The next link is due exactly when effective offset + effective limit
  < total - effective limit, and it carries the effective limit, which is the smaller of the
  limit found in the URL and the configured one. The code computes its limit from
  \<open>page[Limit]\<close> (see C1) and so uses the configured limit whatever \<open>page[limit]\<close> says.
  For the URL \<open>/?page[limit]=50&page[offset]=150\<close> with limit 100 and total 334 the
  effective limit is 50 and the effective offset 150, so that the next link is due
  (150 + 50 < 334 - 50); the code tests 150 + 100 < 334 - 100 and returns a link set
  without a next link.
\<close>

theorem next_link_missing:
  "GeneratePagination c63 \<lparr>URL = ''/?page[limit]=50&page[offset]=150'', Limit = 100, Total = 334\<rparr>
   = Inr (Some [KeyFirstPage \<mapsto> ''/?page[limit]=100&page[offset]=0'',
                KeyPreviousPage \<mapsto> ''/?page[limit]=100&page[offset]=50'',
                KeyLastPage \<mapsto> ''/?page[limit]=100&page[offset]=250''],
          \<lparr>URL = ''/?page[limit]=50&page[offset]=150'', Limit = 100, Total = 334\<rparr>)
   \<and> specEffectiveLimit ''/?page[limit]=50&page[offset]=150'' 100 = 50
   \<and> effectiveOffset c63
        \<lparr>URL = ''/?page[limit]=50&page[offset]=150'', Limit = 100, Total = 334\<rparr> = 150
   \<and> effectiveOffset c63
        \<lparr>URL = ''/?page[limit]=50&page[offset]=150'', Limit = 100, Total = 334\<rparr>
       + specEffectiveLimit ''/?page[limit]=50&page[offset]=150'' 100
     <s 334 - specEffectiveLimit ''/?page[limit]=50&page[offset]=150'' 100"
  using example_small_limit [of c63]
  by (simp add: small_limit_spec small_limit_offset word_sless_alt)

text \<open>
  C5. The last link carries the effective limit, and its offset is computed from the
  effective limit. For the URL \<open>/?page[limit]=50&page[offset]=150\<close> with limit 100 and
  total 334 the effective limit is 50, the offset of the last page is 300
  (7 pages of 50, no shift) and the last link is \<open>/?page[limit]=50&page[offset]=300\<close>.
  The code, whose limit is the configured one (see C1), returns the last link
  \<open>/?page[limit]=100&page[offset]=250\<close>.
\<close>

theorem last_link_other_limit:
  "GeneratePagination c63 \<lparr>URL = ''/?page[limit]=50&page[offset]=150'', Limit = 100, Total = 334\<rparr>
   = Inr (Some [KeyFirstPage \<mapsto> ''/?page[limit]=100&page[offset]=0'',
                KeyPreviousPage \<mapsto> ''/?page[limit]=100&page[offset]=50'',
                KeyLastPage \<mapsto> ''/?page[limit]=100&page[offset]=250''],
          \<lparr>URL = ''/?page[limit]=50&page[offset]=150'', Limit = 100, Total = 334\<rparr>)
   \<and> specLastOffset 334 (specEffectiveLimit ''/?page[limit]=50&page[offset]=150'' 100)
        (effectiveOffset c63
           \<lparr>URL = ''/?page[limit]=50&page[offset]=150'', Limit = 100, Total = 334\<rparr>) = 300
   \<and> linkURL ''/?page[limit]=50&page[offset]=150''
        (specEffectiveLimit ''/?page[limit]=50&page[offset]=150'' 100) 300
       = ''/?page[limit]=50&page[offset]=300''"
proof -
  have u: "linkURL ''/?page[limit]=50&page[offset]=150'' 50 300
           = ''/?page[limit]=50&page[offset]=300''"
    by (simp add: eval_simps)
  show ?thesis
    using example_small_limit [of c63]
    by (simp add: small_limit_spec small_limit_offset small_limit_specLast u)
qed

text \<open>
  C9. With a limit of at least 1 whenever the total is positive the call is meant never to
  panic, and the code floors the offset at 0 (\<open>math.Max\<close> with \<open>float64(0)\<close>). The floor is
  taken on doubles: for the URL \<open>/?page[offset]=9223372036854775807\<close> the conversion
  \<open>float64\<close> rounds the offset to \<open>2^63\<close>, which is out of range for the conversion back
  to \<open>int64\<close>; amd64 yields the most negative integer. With a limit and a total of 0 the
  offset is then negative, \<open>offset + limit < total\<close> holds and \<open>p.Total / limit\<close> divides
  by zero, although the total is not positive.
\<close>

theorem panic_with_total_zero:
  "\<not> 0 <s Total \<lparr>URL = ''/?page[offset]=9223372036854775807'', Limit = 0, Total = (0 :: int64)\<rparr>
   \<and> effectiveOffset c63_amd64
         (initURL \<lparr>URL = ''/?page[offset]=9223372036854775807'', Limit = 0, Total = 0\<rparr>) <s 0
   \<and> GeneratePagination c63_amd64
         \<lparr>URL = ''/?page[offset]=9223372036854775807'', Limit = 0, Total = 0\<rparr>
       = Inl DivideByZero"
  using example_huge_offset
  by (simp add: huge_offset_init huge_offset_offset word_sless_alt c63_amd64_negative)




text \<open>
  C10, as stated: running the calculator again on the URL of a link, with the same limit
  and total, gives the link set of a request whose current offset is the offset of that
  link. It does not where the links cannot carry their offsets. The URL
  \<open>/?q=page[offset]\<close> contains the text \<open>page[offset]\<close>, so no \<open>page[offset]=0\<close> is
  appended to it, and it has no \<open>page[offset]=\<close> followed by a value, so \<open>replaceParam\<close>
  finds nothing to replace: with limit 100 and total 334 the next link has the offset 100
  and the URL \<open>/?q=page[offset]&page[limit]=100\<close>; run on that URL, the calculator reads
  the offset 0 and returns a next and a last link again, and no first link.
\<close>

theorem rerun_ignores_offset:
  "GeneratePagination c63_amd64 \<lparr>URL = ''/?q=page[offset]'', Limit = 100, Total = 334\<rparr>
   = Inr (Some [KeyNextPage \<mapsto> ''/?q=page[offset]&page[limit]=100'',
                KeyLastPage \<mapsto> ''/?q=page[offset]&page[limit]=100''],
          \<lparr>URL = ''/?q=page[offset]&page[limit]=100'', Limit = 100, Total = 334\<rparr>)
   \<and> targetOffset c63_amd64 \<lparr>URL = ''/?q=page[offset]'', Limit = 100, Total = 334\<rparr> KeyNextPage
       = 100
   \<and> effectiveOffset c63_amd64
        (initURL \<lparr>URL = ''/?q=page[offset]&page[limit]=100'', Limit = 100, Total = 334\<rparr>) = 0
   \<and> GeneratePagination c63_amd64
        \<lparr>URL = ''/?q=page[offset]&page[limit]=100'', Limit = 100, Total = 334\<rparr>
       = Inr (Some [KeyNextPage \<mapsto> ''/?q=page[offset]&page[limit]=100'',
                    KeyLastPage \<mapsto> ''/?q=page[offset]&page[limit]=100''],
              \<lparr>URL = ''/?q=page[offset]&page[limit]=100'', Limit = 100, Total = 334\<rparr>)
   \<and> [KeyNextPage \<mapsto> ''/?q=page[offset]&page[limit]=100'',
       KeyLastPage \<mapsto> ''/?q=page[offset]&page[limit]=100''] KeyFirstPage = None"
  using example_no_offset_param [of c63_amd64] example_no_offset_param_link [of c63_amd64]
  by (simp add: no_offset_param_target no_offset_param_init_link no_offset_param_offset)

text \<open>
  C10, amended. Take a link of a request whose working URL has a part (between \<open>&\<close>
  separators) that contains \<open>page[offset]=\<close> followed by at least one character and does
  not contain \<open>page[limit]=\<close>, whose URL does not contain \<open>page[Limit]=\<close>, whose effective
  limit in the sense of the specification is the limit the code computes, and let the
  offset \<open>t\<close> of the link be at least 0 and below \<open>2^53\<close>. Run on the URL of the link with
  the same limit and total, the calculator has the effective offset \<open>t\<close> and the effective
  limit of the first run, as the code computes it and in the sense of the specification;
  it panics only for a limit of 0 with a positive total, and otherwise returns the link
  set with a first link iff \<open>0 < t\<close>, a previous link iff \<open>limit < t\<close> (offset
  \<open>t - limit\<close>), a next link iff \<open>t + limit < total - limit\<close> (offset \<open>t + limit\<close>) and
  a last link iff \<open>t + limit < total\<close> (the offset of the last page for \<open>t\<close>).
\<close>

theorem rerun_on_link:
  fixes c63 p k u
  defines "q \<equiv> \<lparr>URL = u, Limit = Limit p, Total = Total p\<rparr>"
  defines "t \<equiv> targetOffset c63 p k"
  defines "lm \<equiv> effectiveLimit c63 (initURL p)"
  assumes run: "GeneratePagination c63 p = Inr (Some links, p')"
    and link: "links k = Some u"
    and noL: "\<not> Contains (URL p) ''page[Limit]=''"
    and agree: "specEffectiveLimit (URL (initURL p)) (Limit p) = effectiveLimit c63 (initURL p)"
    and part: "seg \<in> set (splitAmp (URL (initURL p)))"
      "Contains seg (''page[offset]='' @ [d])" "\<not> Contains seg ''page[limit]=''"
    and tgt: "0 \<le>s targetOffset c63 p k" "sint (targetOffset c63 p k) < 2 ^ 53"
  shows "effectiveOffset c63 (initURL q) = t
       \<and> effectiveLimit c63 (initURL q) = lm
       \<and> specEffectiveLimit (URL (initURL q)) (Limit p)
           = specEffectiveLimit (URL (initURL p)) (Limit p)
       \<and> ((GeneratePagination c63 q = Inl DivideByZero \<and> Limit p = 0 \<and> 0 <s Total p)
          \<or> (\<exists>links'. GeneratePagination c63 q = Inr (Some links', initURL q)
               \<and> links' KeyFirstPage =
                   (if 0 <s t then Some (linkURL (URL (initURL q)) lm 0) else None)
               \<and> links' KeyPreviousPage =
                   (if lm <s t then Some (linkURL (URL (initURL q)) lm (t - lm)) else None)
               \<and> links' KeyNextPage =
                   (if t + lm <s Total p - lm then Some (linkURL (URL (initURL q)) lm (t + lm))
                    else None)
               \<and> links' KeyLastPage =
                   (if t + lm <s Total p
                    then Some (linkURL (URL (initURL q)) lm (lastOffset (Total p) lm t))
                    else None)))"
proof -
  let ?W = "URL (initURL p)"
  have u: "u = linkURL ?W lm t"
    unfolding lm_def t_def by (rule link_targetOffset [OF run link])
  have nW: "\<not> Contains ?W ''page[Limit]=''"
    using specWorkingURL_no_Limit [OF noL, of "Limit p"] by (simp add: initURL_spec)
  then have gl: "getPageParam ''Limit'' ?W = 0" by (intro getPageParam_absent) simp
  have lmL: "lm = Limit p"
    unfolding lm_def using effectiveLimit_agree [of "initURL p" c63] gl agree by simp
  have off: "effectiveOffset c63 (initURL q) = t"
    unfolding q_def u t_def by (rule rerun_values(1) [OF nW part tgt])
  have gl': "getPageParam ''Limit'' (URL (initURL q)) = 0"
    unfolding q_def u t_def by (rule rerun_values(2) [OF nW part tgt])
  have lim: "effectiveLimit c63 (initURL q) = lm"
    unfolding lm_def by (rule effectiveLimit_no_param [OF gl' gl]) (simp add: q_def)
  have "URL (initURL q) = specWorkingURL (linkURL ?W (Limit p) t) (Limit p)"
    by (simp add: initURL_spec q_def u lmL)
  then have "specEffectiveLimit (URL (initURL q)) (Limit p) = Limit p"
    using getPageParam_limit_rerun [of ?W "Limit p" t]
    by (simp only: specEffectiveLimit_default)
  then have spec: "specEffectiveLimit (URL (initURL q)) (Limit p)
                   = specEffectiveLimit ?W (Limit p)"
    using agree lmL by (simp add: lm_def)
  have pass: "\<not> Total q <s Limit q"
    using GeneratePagination_Some_pass [OF run] by (simp add: q_def)
  have T: "Total q = Total p" by (simp add: q_def)
  have pos: "0 <s Total p" if "t + lm <s Total p" "lm = 0"
    using that tgt(1) by (simp add: t_def word_sle_eq word_sless_alt)
  note G = GeneratePagination_links [OF pass, of c63, unfolded off lim T]
  from G
  have res: "(GeneratePagination c63 q = Inl DivideByZero \<and> Limit p = 0 \<and> 0 <s Total p)
          \<or> (\<exists>links'. GeneratePagination c63 q = Inr (Some links', initURL q)
               \<and> links' KeyFirstPage =
                   (if 0 <s t then Some (linkURL (URL (initURL q)) lm 0) else None)
               \<and> links' KeyPreviousPage =
                   (if lm <s t then Some (linkURL (URL (initURL q)) lm (t - lm)) else None)
               \<and> links' KeyNextPage =
                   (if t + lm <s Total p - lm then Some (linkURL (URL (initURL q)) lm (t + lm))
                    else None)
               \<and> links' KeyLastPage =
                   (if t + lm <s Total p
                    then Some (linkURL (URL (initURL q)) lm (lastOffset (Total p) lm t))
                    else None))"
  proof
    assume a: "GeneratePagination c63 q = Inl DivideByZero \<and> t + lm <s Total p \<and> lm = 0"
    then have "t + lm <s Total p" and "lm = 0" by (rule conjunct2 [THEN conjunct1], rule conjunct2 [THEN conjunct2])
    then have "0 <s Total p" by (rule pos)
    moreover from a lmL have "Limit p = 0" by simp
    moreover from a have "GeneratePagination c63 q = Inl DivideByZero" by simp
    ultimately show ?thesis by simp
  next
    assume "(t + lm <s Total p \<longrightarrow> lm \<noteq> 0) \<and>
      (\<exists>links. GeneratePagination c63 q = Inr (Some links, initURL q)
         \<and> links KeyFirstPage =
             (if 0 <s t then Some (linkURL (URL (initURL q)) lm 0) else None)
         \<and> links KeyPreviousPage =
             (if lm <s t then Some (linkURL (URL (initURL q)) lm (t - lm)) else None)
         \<and> links KeyNextPage =
             (if t + lm <s Total p - lm then Some (linkURL (URL (initURL q)) lm (t + lm))
              else None)
         \<and> links KeyLastPage =
             (if t + lm <s Total p
              then Some (linkURL (URL (initURL q)) lm (lastOffset (Total p) lm t))
              else None))"
    then show ?thesis by (intro disjI2) (rule conjunct2)
  qed
  from off lim spec res show ?thesis by (intro conjI)
qed

theorem rerun_on_link_witness:
  "GeneratePagination c63_amd64
     \<lparr>URL = ''/?page[limit]=111&page[offset]=111'', Limit = 100, Total = 334\<rparr>
   = Inr (Some [KeyFirstPage \<mapsto> ''/?page[limit]=100&page[offset]=0'',
                KeyPreviousPage \<mapsto> ''/?page[limit]=100&page[offset]=11'',
                KeyNextPage \<mapsto> ''/?page[limit]=100&page[offset]=211'',
                KeyLastPage \<mapsto> ''/?page[limit]=100&page[offset]=311''],
          \<lparr>URL = ''/?page[limit]=111&page[offset]=111'', Limit = 100, Total = 334\<rparr>)
   \<and> \<not> Contains ''/?page[limit]=111&page[offset]=111'' ''page[Limit]=''
   \<and> targetOffset c63_amd64
        \<lparr>URL = ''/?page[limit]=111&page[offset]=111'', Limit = 100, Total = 334\<rparr> KeyNextPage
       = 211
   \<and> effectiveOffset c63_amd64
        (initURL \<lparr>URL = ''/?page[limit]=100&page[offset]=211'', Limit = 100, Total = 334\<rparr>)
       = 211
   \<and> effectiveLimit c63_amd64
        (initURL \<lparr>URL = ''/?page[limit]=100&page[offset]=211'', Limit = 100, Total = 334\<rparr>)
       = 100
   \<and> specEffectiveLimit
        (URL (initURL \<lparr>URL = ''/?page[limit]=100&page[offset]=211'', Limit = 100, Total = 334\<rparr>))
        100 = 100"
proof -
  let ?p = "\<lparr>URL = ''/?page[limit]=111&page[offset]=111'', Limit = 100, Total = 334\<rparr>"
  let ?u = "''/?page[limit]=100&page[offset]=211''"
  note ex = example_mid_range [of c63_amd64]
  have lk: "[KeyFirstPage \<mapsto> ''/?page[limit]=100&page[offset]=0'',
             KeyPreviousPage \<mapsto> ''/?page[limit]=100&page[offset]=11'',
             KeyNextPage \<mapsto> ?u,
             KeyLastPage \<mapsto> ''/?page[limit]=100&page[offset]=311''] KeyNextPage = Some ?u"
    by simp
  have noL: "\<not> Contains (URL ?p) ''page[Limit]=''" by simp
  have agree: "specEffectiveLimit (URL (initURL ?p)) (Limit ?p) = effectiveLimit c63_amd64 (initURL ?p)"
    unfolding mid_range_init mid_range_limit by (simp add: mid_range_spec_limit)
  have p1: "''page[offset]=111'' \<in> set (splitAmp (URL (initURL ?p)))"
    unfolding mid_range_init by simp
  have p2: "Contains ''page[offset]=111'' (''page[offset]='' @ [CHR ''1''])" by simp
  have p3: "\<not> Contains ''page[offset]=111'' ''page[limit]=''" by simp
  have t1: "0 \<le>s targetOffset c63_amd64 ?p KeyNextPage"
    unfolding mid_range_target by (simp add: word_sle_eq)
  have t2: "sint (targetOffset c63_amd64 ?p KeyNextPage) < 2 ^ 53"
    unfolding mid_range_target by simp
  note r = rerun_on_link [OF ex lk noL agree p1 p2 p3 t1 t2]
  from r have "effectiveOffset c63_amd64 (initURL \<lparr>URL = ?u, Limit = Limit ?p, Total = Total ?p\<rparr>)
               = targetOffset c63_amd64 ?p KeyNextPage" by (rule conjunct1)
  then have a: "effectiveOffset c63_amd64 (initURL \<lparr>URL = ?u, Limit = 100, Total = 334\<rparr>) = 211"
    unfolding mid_range_target by simp
  from r have "effectiveLimit c63_amd64 (initURL \<lparr>URL = ?u, Limit = Limit ?p, Total = Total ?p\<rparr>)
               = effectiveLimit c63_amd64 (initURL ?p)" by (rule conjunct2 [THEN conjunct1])
  then have b: "effectiveLimit c63_amd64 (initURL \<lparr>URL = ?u, Limit = 100, Total = 334\<rparr>) = 100"
    unfolding mid_range_init mid_range_limit by simp
  from r have "specEffectiveLimit (URL (initURL \<lparr>URL = ?u, Limit = Limit ?p, Total = Total ?p\<rparr>))
                 (Limit ?p)
               = specEffectiveLimit (URL (initURL ?p)) (Limit ?p)"
    by (rule conjunct2 [THEN conjunct2, THEN conjunct1])
  then have c: "specEffectiveLimit (URL (initURL \<lparr>URL = ?u, Limit = 100, Total = 334\<rparr>)) 100 = 100"
    unfolding mid_range_init by (simp add: mid_range_spec_limit)
  from ex noL mid_range_target [of c63_amd64] a b c show ?thesis by simp
qed

end
